theory Spec2Isabelle
  imports Complex_Main
begin

section \<open>Isolation-forest host intrusion detection: the C sources as HOL functions\<close>

text \<open>
  Two programs are embedded. The full detector (functions \<open>harmonic_number\<close>,
  \<open>c_factor\<close>, \<open>random_int\<close>, \<open>build_isolation_tree\<close>, \<open>path_length\<close>,
  \<open>train_isolation_forest\<close>, \<open>anomaly_score\<close>) keeps its names. The compact detector of
  \<open>new.c\<close> declares a second \<open>c_factor\<close>, so its functions carry the prefix \<open>new_\<close>
  where a name would clash (\<open>new_c_factor\<close>); \<open>build_tree\<close> and \<open>get_path\<close> keep theirs.
  The third program, appended to \<open>new.c\<close> after its \<open>main\<close>, splits the array in half
  without looking at the data; none of the properties below is about it.

  C \<open>int\<close> is \<open>int\<close>: no computation of either program is meant to leave the 32-bit range,
  and signed overflow has no defined result in C. C \<open>double\<close> is \<open>real\<close>, \<open>log\<close> is \<open>ln\<close> and
  \<open>pow\<close> is \<open>powr\<close>: rounding is not modelled. A flag field holding 0 or 1 is a \<open>bool\<close>, a
  pointer that may be \<open>NULL\<close> is an \<open>option\<close>.
\<close>

subsection \<open>Configuration\<close>

definition MAX_SYSCALLS :: int where "MAX_SYSCALLS = 20"
definition NUM_TREES :: int where "NUM_TREES = 10"
definition SUBSAMPLE_SIZE :: int where "SUBSAMPLE_SIZE = 8"
definition MAX_TREE_DEPTH :: int where "MAX_TREE_DEPTH = 10"
definition MAX_DEPTH :: int where "MAX_DEPTH = 10"

subsection \<open>Normalisation constant\<close>

definition harmonic_number :: "int \<Rightarrow> real" where
  "harmonic_number n = (if n \<le> 1 then 0 else ln (real_of_int n) + 0.5772156649)"

definition c_factor :: "int \<Rightarrow> real" where
  "c_factor n =
     (if n \<le> 1 then 0
      else 2 * harmonic_number (n - 1) - (2 * (real_of_int n - 1) / real_of_int n))"

definition new_c_factor :: "int \<Rightarrow> real" where
  "new_c_factor n =
     (if n \<le> 1 then 0
      else 2 * (ln (real_of_int (n - 1)) + 0.5772156649) - (2 * (real_of_int n - 1) / real_of_int n))"

subsection \<open>Data of the full detector\<close>

record ProcessBehavior =
  syscall_freq :: "int list"
  total_calls :: int
  process_name :: string
  is_anomaly :: bool

text \<open>
  \<open>struct IsolationNode\<close>, fields in the order of the declaration; the field \<open>size\<close> is
  \<open>node_size\<close> here.
\<close>

datatype IsolationNode = IsolationNode
  (is_leaf: bool) (split_attribute: int) (split_value: int)
  (left: "IsolationNode option") (right: "IsolationNode option") (node_size: int)

record IsolationTree =
  root :: "IsolationNode option"
  max_depth :: int

record IsolationForest =
  trees :: "IsolationTree list"
  num_trees :: int
  subsample_size :: int

subsection \<open>The random generator\<close>

text \<open>
  \<open>rand()\<close> is the C library's: the sequence of numbers it returns after \<open>srand\<close> is a
  parameter \<open>rnd\<close>, and the state is the number of calls made so far. Its results are
  never negative, hence \<open>nat\<close>.
\<close>

type_synonym rand_stream = "nat \<Rightarrow> nat"

definition rand :: "rand_stream \<Rightarrow> nat \<Rightarrow> int \<times> nat" where
  "rand rnd s = (int (rnd s), Suc s)"

text \<open>
  Every call site of \<open>random_int\<close> has \<open>min \<le> max\<close>: the constants of the data generators,
  \<open>(0, MAX_SYSCALLS - 1)\<close>, \<open>(min_val, max_val)\<close> after the test \<open>min_val == max_val\<close>, and
  \<open>(0, n - 1)\<close> inside a loop that runs only when \<open>0 < n\<close>. The divisor is positive there.
\<close>

definition random_int :: "rand_stream \<Rightarrow> int \<Rightarrow> int \<Rightarrow> nat \<Rightarrow> int \<times> nat" where
  "random_int rnd lo hi s = (case rand rnd s of (r, s') \<Rightarrow> (lo + r mod (hi - lo + 1), s'))"

subsection \<open>Building an isolation tree\<close>

text \<open>
  \<open>create_node\<close> returns a node with \<open>is_leaf = 0\<close>, \<open>split_attribute = -1\<close>, \<open>split_value = 0\<close>, no
  children and \<open>size = 0\<close>; \<open>build_isolation_tree\<close> below writes out the node as it stands at
  each \<open>return\<close>.
\<close>

definition freq_at :: "ProcessBehavior list \<Rightarrow> int list \<Rightarrow> int \<Rightarrow> nat \<Rightarrow> int" where
  "freq_at data indices attr i = syscall_freq (data ! nat (indices ! i)) ! nat attr"

text \<open>The loop that finds \<open>min_val\<close> and \<open>max_val\<close>, from \<open>i = 1\<close> to \<open>n - 1\<close>.\<close>

definition min_max_loop ::
  "ProcessBehavior list \<Rightarrow> int list \<Rightarrow> int \<Rightarrow> int \<Rightarrow> int \<times> int" where
  "min_max_loop data indices attr n =
     fold (\<lambda>i (min_val, max_val).
             let val = freq_at data indices attr i;
                 min_val = (if val < min_val then val else min_val);
                 max_val = (if val > max_val then val else max_val)
             in (min_val, max_val))
          [1..<nat n]
          (freq_at data indices attr 0, freq_at data indices attr 0)"

text \<open>
  The partition loop, from \<open>i = 0\<close> to \<open>n - 1\<close>; \<open>left_count\<close> and \<open>right_count\<close> are the
  lengths of the two lists.
\<close>

definition partition_loop ::
  "ProcessBehavior list \<Rightarrow> int list \<Rightarrow> int \<Rightarrow> int \<Rightarrow> int \<Rightarrow> int list \<times> int list" where
  "partition_loop data indices attr sv n =
     fold (\<lambda>i (left_indices, right_indices).
             if freq_at data indices attr i < sv
             then (left_indices @ [indices ! i], right_indices)
             else (left_indices, right_indices @ [indices ! i]))
          [0..<nat n] ([], [])"

function build_isolation_tree ::
  "rand_stream \<Rightarrow> ProcessBehavior list \<Rightarrow> int list \<Rightarrow> int \<Rightarrow> int \<Rightarrow> int \<Rightarrow> nat
     \<Rightarrow> IsolationNode \<times> nat" where
  "build_isolation_tree rnd data indices n current_depth depth_limit s =
     (if current_depth \<ge> depth_limit \<or> n \<le> 1
      then (IsolationNode True (- 1) 0 None None n, s)
      else
        case random_int rnd 0 (MAX_SYSCALLS - 1) s of (attr, s1) \<Rightarrow>
        case min_max_loop data indices attr n of (min_val, max_val) \<Rightarrow>
        if min_val = max_val
        then (IsolationNode True attr 0 None None n, s1)
        else
          case random_int rnd min_val max_val s1 of (sv, s2) \<Rightarrow>
          case partition_loop data indices attr sv n of (left_indices, right_indices) \<Rightarrow>
          case (if length left_indices > 0
                then (case build_isolation_tree rnd data left_indices (int (length left_indices))
                             (current_depth + 1) depth_limit s2
                      of (l, s3) \<Rightarrow> (Some l, s3))
                else (None, s2)) of (l, s3) \<Rightarrow>
          case (if length right_indices > 0
                then (case build_isolation_tree rnd data right_indices (int (length right_indices))
                             (current_depth + 1) depth_limit s3
                      of (r, s4) \<Rightarrow> (Some r, s4))
                else (None, s3)) of (r, s4) \<Rightarrow>
          (IsolationNode False attr sv l r n, s4))"
  by pat_completeness auto
termination
  by (relation "measure (\<lambda>(rnd, data, indices, n, current_depth, depth_limit, s).
                   nat (depth_limit - current_depth))") auto

declare build_isolation_tree.simps [simp del]

subsection \<open>Path length and anomaly score\<close>

fun path_length :: "IsolationNode option \<Rightarrow> ProcessBehavior \<Rightarrow> int \<Rightarrow> real" where
  "path_length None sample current_depth = real_of_int current_depth"
| "path_length (Some (IsolationNode lf attr sv l r sz)) sample current_depth =
     (if lf then real_of_int current_depth + c_factor sz
      else
        let val = syscall_freq sample ! nat attr in
        if val < sv \<and> l \<noteq> None then path_length l sample (current_depth + 1)
        else if r \<noteq> None then path_length r sample (current_depth + 1)
        else real_of_int current_depth)"

definition anomaly_score :: "IsolationForest \<Rightarrow> ProcessBehavior \<Rightarrow> real" where
  "anomaly_score forest sample =
     (let avg_path_length =
            fold (\<lambda>t acc. acc + path_length (root (trees forest ! t)) sample 0)
                 [0..<nat (num_trees forest)] 0;
          avg_path_length = avg_path_length / real_of_int (num_trees forest);
          c = c_factor (subsample_size forest)
      in if c = 0 then 0.5 else 2 powr (- avg_path_length / c))"

subsection \<open>Path length and anomaly score on the program's memory\<close>

text \<open>
  The same two functions once more, now with their pointers: the arguments are addresses,
  \<open>0\<close> is \<open>NULL\<close>, and the objects live in a memory with one region for each struct type.
  The state of the program is that memory together with the number of calls of \<open>rand\<close>
  made so far. Every access is a step on the state, so that what a call does to the state
  is a property of its body; reading through a pointer that holds no object is a fault
  (\<open>None\<close>).

  A recursion down a chain of pointers need not end on an arbitrary memory, and the loop
  of \<open>anomaly_score\<close> reads its bound \<open>forest->num_trees\<close> anew at every round: both take
  a number of steps they may use, and give \<open>None\<close> when it runs out.
\<close>

record node_cell =
  is_leaf_c :: bool
  split_attribute_c :: int
  split_value_c :: int
  left_c :: nat
  right_c :: nat
  size_c :: int

record tree_cell =
  root_c :: nat
  max_depth_c :: int

record forest_cell =
  trees_c :: "nat list"
  num_trees_c :: int
  subsample_size_c :: int

record machine =
  node_heap :: "nat \<Rightarrow> node_cell option"
  tree_heap :: "nat \<Rightarrow> tree_cell option"
  forest_heap :: "nat \<Rightarrow> forest_cell option"
  behavior_heap :: "nat \<Rightarrow> ProcessBehavior option"
  rand_calls :: nat

definition load_node :: "nat \<Rightarrow> machine \<Rightarrow> (node_cell \<times> machine) option" where
  "load_node p st =
     (if p = 0 then None
      else case node_heap st p of None \<Rightarrow> None | Some c \<Rightarrow> Some (c, st))"

definition load_tree :: "nat \<Rightarrow> machine \<Rightarrow> (tree_cell \<times> machine) option" where
  "load_tree p st =
     (if p = 0 then None
      else case tree_heap st p of None \<Rightarrow> None | Some c \<Rightarrow> Some (c, st))"

definition load_forest :: "nat \<Rightarrow> machine \<Rightarrow> (forest_cell \<times> machine) option" where
  "load_forest p st =
     (if p = 0 then None
      else case forest_heap st p of None \<Rightarrow> None | Some c \<Rightarrow> Some (c, st))"

definition load_behavior :: "nat \<Rightarrow> machine \<Rightarrow> (ProcessBehavior \<times> machine) option" where
  "load_behavior p st =
     (if p = 0 then None
      else case behavior_heap st p of None \<Rightarrow> None | Some c \<Rightarrow> Some (c, st))"

fun path_length_m ::
  "nat \<Rightarrow> nat \<Rightarrow> nat \<Rightarrow> int \<Rightarrow> machine \<Rightarrow> (real \<times> machine) option" where
  "path_length_m 0 node sample current_depth st = None"
| "path_length_m (Suc k) node sample current_depth st =
     (if node = 0 then Some (real_of_int current_depth, st)
      else
        case load_node node st of None \<Rightarrow> None | Some (c, st1) \<Rightarrow>
        if is_leaf_c c then Some (real_of_int current_depth + c_factor (size_c c), st1)
        else
          case load_behavior sample st1 of None \<Rightarrow> None | Some (b, st2) \<Rightarrow>
          let val = syscall_freq b ! nat (split_attribute_c c) in
          if val < split_value_c c \<and> left_c c \<noteq> 0
          then path_length_m k (left_c c) sample (current_depth + 1) st2
          else if right_c c \<noteq> 0
          then path_length_m k (right_c c) sample (current_depth + 1) st2
          else Some (real_of_int current_depth, st2))"

text \<open>
  The loop of \<open>anomaly_score\<close> from round \<open>t\<close> on, with the sum so far; an index beyond the
  array \<open>trees\<close> is a fault.
\<close>

fun score_loop ::
  "nat \<Rightarrow> nat \<Rightarrow> nat \<Rightarrow> nat \<Rightarrow> real \<Rightarrow> machine \<Rightarrow> (real \<times> machine) option" where
  "score_loop 0 forest sample t avg_path_length st = None"
| "score_loop (Suc k) forest sample t avg_path_length st =
     (case load_forest forest st of None \<Rightarrow> None | Some (fc, st1) \<Rightarrow>
      if int t < num_trees_c fc
      then
        if t < length (trees_c fc)
        then
          case load_tree (trees_c fc ! t) st1 of None \<Rightarrow> None | Some (tc, st2) \<Rightarrow>
          case path_length_m k (root_c tc) sample 0 st2 of None \<Rightarrow> None | Some (p, st3) \<Rightarrow>
          score_loop k forest sample (Suc t) (avg_path_length + p) st3
        else None
      else Some (avg_path_length, st1))"

definition anomaly_score_m ::
  "nat \<Rightarrow> nat \<Rightarrow> nat \<Rightarrow> machine \<Rightarrow> (real \<times> machine) option" where
  "anomaly_score_m k forest sample st =
     (case score_loop k forest sample 0 0 st of None \<Rightarrow> None
      | Some (avg_path_length, st1) \<Rightarrow>
      case load_forest forest st1 of None \<Rightarrow> None | Some (fc, st2) \<Rightarrow>
      let avg_path_length = avg_path_length / real_of_int (num_trees_c fc);
          c = c_factor (subsample_size_c fc)
      in if c = 0 then Some (0.5, st2) else Some (2 powr (- avg_path_length / c), st2))"

subsection \<open>Training\<close>

text \<open>The inner loop of \<open>train_isolation_forest\<close>: \<open>k\<close> indices still to draw.\<close>

fun draw_subsample :: "rand_stream \<Rightarrow> int \<Rightarrow> nat \<Rightarrow> nat \<Rightarrow> int list \<times> nat" where
  "draw_subsample rnd n 0 s = ([], s)"
| "draw_subsample rnd n (Suc k) s =
     (case random_int rnd 0 (n - 1) s of (i, s1) \<Rightarrow>
      case draw_subsample rnd n k s1 of (rest, s2) \<Rightarrow> (i # rest, s2))"

text \<open>The outer loop: \<open>k\<close> trees still to build.\<close>

fun train_loop ::
  "rand_stream \<Rightarrow> ProcessBehavior list \<Rightarrow> int \<Rightarrow> int \<Rightarrow> nat \<Rightarrow> nat \<Rightarrow> IsolationTree list \<times> nat" where
  "train_loop rnd training_data n subsample 0 s = ([], s)"
| "train_loop rnd training_data n subsample (Suc k) s =
     (case draw_subsample rnd n (nat subsample) s of (subsample_indices, s1) \<Rightarrow>
      case build_isolation_tree rnd training_data subsample_indices subsample 0 MAX_TREE_DEPTH s1
        of (node, s2) \<Rightarrow>
      case train_loop rnd training_data n subsample k s2 of (rest, s3) \<Rightarrow>
        (\<lparr>root = Some node, max_depth = MAX_TREE_DEPTH\<rparr> # rest, s3))"

definition train_isolation_forest ::
  "rand_stream \<Rightarrow> ProcessBehavior list \<Rightarrow> int \<Rightarrow> nat \<Rightarrow> IsolationForest \<times> nat" where
  "train_isolation_forest rnd training_data n s =
     (let subsample = (if SUBSAMPLE_SIZE < n then SUBSAMPLE_SIZE else n)
      in case train_loop rnd training_data n subsample (nat NUM_TREES) s of (ts, s') \<Rightarrow>
           (\<lparr>trees = ts, num_trees = NUM_TREES, subsample_size = subsample\<rparr>, s'))"

subsection \<open>The compact detector of \<open>new.c\<close>\<close>

record Process =
  freq :: "int list"
  is_anomaly_p :: bool

text \<open>\<open>struct Node\<close>: \<open>is_leaf, split_attr, split_val, size, left, right\<close>.\<close>

datatype Node = Node
  (is_leaf_n: bool) (split_attr: int) (split_val: int) (size_n: int)
  (left_n: "Node option") (right_n: "Node option")

definition freq_idx :: "Process list \<Rightarrow> int list \<Rightarrow> int \<Rightarrow> nat \<Rightarrow> int" where
  "freq_idx data idx attr i = freq (data ! nat (idx ! i)) ! nat attr"

definition min_max_scan :: "Process list \<Rightarrow> int list \<Rightarrow> int \<Rightarrow> int \<Rightarrow> int \<times> int" where
  "min_max_scan data idx attr n =
     fold (\<lambda>i (mn, mx).
             let v = freq_idx data idx attr i;
                 mn = (if v < mn then v else mn);
                 mx = (if v > mx then v else mx)
             in (mn, mx))
          [1..<nat n]
          (freq_idx data idx attr 0, freq_idx data idx attr 0)"

definition split_scan ::
  "Process list \<Rightarrow> int list \<Rightarrow> int \<Rightarrow> int \<Rightarrow> int \<Rightarrow> int list \<times> int list" where
  "split_scan data idx attr sv n =
     fold (\<lambda>i (l_idx, r_idx).
             if freq_idx data idx attr i < sv
             then (l_idx @ [idx ! i], r_idx)
             else (l_idx, r_idx @ [idx ! i]))
          [0..<nat n] ([], [])"

text \<open>
  \<open>calloc\<close> zeroes the node, and \<open>split_attr\<close> is stored only after the test
  \<open>min == max\<close>, so both kinds of leaf keep \<open>split_attr = 0\<close>.
\<close>

function build_tree ::
  "rand_stream \<Rightarrow> Process list \<Rightarrow> int list \<Rightarrow> int \<Rightarrow> int \<Rightarrow> nat \<Rightarrow> Node \<times> nat" where
  "build_tree rnd data idx n depth s =
     (if depth \<ge> MAX_DEPTH \<or> n \<le> 1
      then (Node True 0 0 n None None, s)
      else
        case rand rnd s of (r1, s1) \<Rightarrow>
        let attr = r1 mod MAX_SYSCALLS in
        case min_max_scan data idx attr n of (mn, mx) \<Rightarrow>
        if mn = mx
        then (Node True 0 0 n None None, s1)
        else
          case rand rnd s1 of (r2, s2) \<Rightarrow>
          let sv = mn + r2 mod (mx - mn + 1) in
          case split_scan data idx attr sv n of (l_idx, r_idx) \<Rightarrow>
          case (if length l_idx \<noteq> 0
                then (case build_tree rnd data l_idx (int (length l_idx)) (depth + 1) s2
                      of (l, s3) \<Rightarrow> (Some l, s3))
                else (None, s2)) of (l, s3) \<Rightarrow>
          case (if length r_idx \<noteq> 0
                then (case build_tree rnd data r_idx (int (length r_idx)) (depth + 1) s3
                      of (r, s4) \<Rightarrow> (Some r, s4))
                else (None, s3)) of (r, s4) \<Rightarrow>
          (Node False attr sv n l r, s4))"
  by pat_completeness auto
termination
  by (relation "measure (\<lambda>(rnd, data, idx, n, depth, s). nat (MAX_DEPTH - depth))") auto

declare build_tree.simps [simp del]

fun get_path :: "Node option \<Rightarrow> Process \<Rightarrow> int \<Rightarrow> real" where
  "get_path None p depth = real_of_int depth + new_c_factor 0"
| "get_path (Some (Node lf attr sv sz l r)) p depth =
     (if lf then real_of_int depth + new_c_factor sz
      else if freq p ! nat attr < sv then get_path l p (depth + 1)
      else get_path r p (depth + 1))"

text \<open>The score that \<open>main\<close> of \<open>new.c\<close> computes for one test process.\<close>

definition main_score :: "Node list \<Rightarrow> Process \<Rightarrow> real" where
  "main_score forest p =
     (let avg_p = fold (\<lambda>t acc. acc + get_path (Some (forest ! t)) p 0) [0..<nat NUM_TREES] 0
      in 2 powr (- (avg_p / real_of_int NUM_TREES) / new_c_factor SUBSAMPLE_SIZE))"

section \<open>Notions used in the statements\<close>

subsection \<open>The normalisation constant as specified\<close>

text \<open>
  The specification's formula, by its words: \<open>0\<close> for \<open>n \<le> 1\<close>, otherwise
  \<open>2 * H(n-1) - 2*(n-1)/n\<close> with \<open>H(k) = ln(k) + \<gamma>\<close>.
\<close>

definition spec_c_factor :: "int \<Rightarrow> real" where
  "spec_c_factor n =
     (if n \<le> 1 then 0
      else 2 * (ln (real_of_int (n - 1)) + 0.5772156649)
           - 2 * (real_of_int n - 1) / real_of_int n)"

subsection \<open>One step of each scanning loop\<close>

fun mm_step :: "(nat \<Rightarrow> int) \<Rightarrow> nat \<Rightarrow> int \<times> int \<Rightarrow> int \<times> int" where
  "mm_step g i (a, b) = (min (g i) a, max (g i) b)"

fun pt_step ::
  "(nat \<Rightarrow> bool) \<Rightarrow> (nat \<Rightarrow> int) \<Rightarrow> nat \<Rightarrow> int list \<times> int list \<Rightarrow> int list \<times> int list" where
  "pt_step P g i (l, r) = (if P i then (l @ [g i], r) else (l, r @ [g i]))"

subsection \<open>Shape of a tree\<close>

text \<open>
  \<open>right_present\<close>: every node that is not a leaf has a right child. \<open>levels\<close>: the number
  of nodes on the longest path from the root. \<open>leaf_total\<close>: the sum of the sizes stored
  in the leaves. Each is defined on a pointer, \<open>NULL\<close> included.
\<close>

fun right_present :: "IsolationNode option \<Rightarrow> bool" where
  "right_present None = True"
| "right_present (Some (IsolationNode lf a v l r sz)) =
     ((lf \<or> r \<noteq> None) \<and> right_present l \<and> right_present r)"

fun levels :: "IsolationNode option \<Rightarrow> nat" where
  "levels None = 0"
| "levels (Some (IsolationNode lf a v l r sz)) = Suc (max (levels l) (levels r))"

fun leaf_total :: "IsolationNode option \<Rightarrow> int" where
  "leaf_total None = 0"
| "leaf_total (Some (IsolationNode lf a v l r sz)) =
     (if lf then sz else leaf_total l + leaf_total r)"

fun right_present_n :: "Node option \<Rightarrow> bool" where
  "right_present_n None = True"
| "right_present_n (Some (Node lf a v sz l r)) =
     ((lf \<or> r \<noteq> None) \<and> right_present_n l \<and> right_present_n r)"

fun levels_n :: "Node option \<Rightarrow> nat" where
  "levels_n None = 0"
| "levels_n (Some (Node lf a v sz l r)) = Suc (max (levels_n l) (levels_n r))"

fun leaf_total_n :: "Node option \<Rightarrow> int" where
  "leaf_total_n None = 0"
| "leaf_total_n (Some (Node lf a v sz l r)) =
     (if lf then sz else leaf_total_n l + leaf_total_n r)"

subsection \<open>The samples that reach a node\<close>

text \<open>
  \<open>samples_read indices n\<close> are the entries that a call with count \<open>n\<close> reads from its index
  array. \<open>routed data md d xs t\<close> sends the samples \<open>xs\<close> down the tree \<open>t\<close> by the attribute
  and value stored in each node, starting at depth \<open>d\<close>, and checks at every node that
  the size stored is the number of samples arriving, that a leaf has no children and
  stands where the depth has reached \<open>md\<close>, or at most one sample arrives, or the arriving
  samples agree on the stored attribute, that no other node does, and that a child is
  absent exactly when nothing is sent to it.
\<close>

definition samples_read :: "int list \<Rightarrow> int \<Rightarrow> int list" where
  "samples_read indices n = map (\<lambda>i. indices ! i) [0..<nat n]"

definition sample_value :: "ProcessBehavior list \<Rightarrow> int \<Rightarrow> int \<Rightarrow> int" where
  "sample_value data attr i = syscall_freq (data ! nat i) ! nat attr"

definition agree_on :: "ProcessBehavior list \<Rightarrow> int \<Rightarrow> int list \<Rightarrow> bool" where
  "agree_on data attr xs =
     (\<forall>i \<in> set xs. \<forall>j \<in> set xs. sample_value data attr i = sample_value data attr j)"

fun routed ::
  "ProcessBehavior list \<Rightarrow> int \<Rightarrow> int \<Rightarrow> int list \<Rightarrow> IsolationNode option \<Rightarrow> bool" where
  "routed data md d xs None = (xs = [])"
| "routed data md d xs (Some (IsolationNode lf a v l r sz)) =
     (sz = int (length xs) \<and>
      (if lf
       then l = None \<and> r = None \<and> (md \<le> d \<or> length xs \<le> 1 \<or> agree_on data a xs)
       else d < md \<and> 2 \<le> length xs \<and> 0 \<le> a \<and> a < MAX_SYSCALLS \<and> \<not> agree_on data a xs
            \<and> routed data md (d + 1) (filter (\<lambda>i. sample_value data a i < v) xs) l
            \<and> routed data md (d + 1) (filter (\<lambda>i. \<not> sample_value data a i < v) xs) r))"

text \<open>
  The same for \<open>new.c\<close>, whose leaves do not store the attribute that was drawn: a leaf
  below the depth limit with two or more samples must have them agree on some attribute.
\<close>

definition process_value :: "Process list \<Rightarrow> int \<Rightarrow> int \<Rightarrow> int" where
  "process_value data attr i = freq (data ! nat i) ! nat attr"

definition agree_on_n :: "Process list \<Rightarrow> int \<Rightarrow> int list \<Rightarrow> bool" where
  "agree_on_n data attr xs =
     (\<forall>i \<in> set xs. \<forall>j \<in> set xs. process_value data attr i = process_value data attr j)"

fun routed_n :: "Process list \<Rightarrow> int \<Rightarrow> int list \<Rightarrow> Node option \<Rightarrow> bool" where
  "routed_n data d xs None = (xs = [])"
| "routed_n data d xs (Some (Node lf a v sz l r)) =
     (sz = int (length xs) \<and>
      (if lf
       then l = None \<and> r = None \<and>
            (MAX_DEPTH \<le> d \<or> length xs \<le> 1
             \<or> (\<exists>attr \<in> set [0..MAX_SYSCALLS - 1]. agree_on_n data attr xs))
       else d < MAX_DEPTH \<and> 2 \<le> length xs \<and> 0 \<le> a \<and> a < MAX_SYSCALLS
            \<and> \<not> agree_on_n data a xs
            \<and> routed_n data (d + 1) (filter (\<lambda>i. process_value data a i < v) xs) l
            \<and> routed_n data (d + 1) (filter (\<lambda>i. \<not> process_value data a i < v) xs) r))"

subsection \<open>A forest laid out in memory\<close>

text \<open>
  \<open>node_at st p t\<close>: the pointer \<open>p\<close> leads, in the memory of \<open>st\<close>, to the tree \<open>t\<close>;
  likewise for a tree and a forest object. \<open>deepest\<close> is the largest number of levels
  among the trees of a list.
\<close>

fun node_at :: "machine \<Rightarrow> nat \<Rightarrow> IsolationNode option \<Rightarrow> bool" where
  "node_at st p None = (p = 0)"
| "node_at st p (Some (IsolationNode lf a v l r sz)) =
     (p \<noteq> 0 \<and>
      (case node_heap st p of None \<Rightarrow> False
       | Some c \<Rightarrow>
           is_leaf_c c = lf \<and> split_attribute_c c = a \<and> split_value_c c = v \<and> size_c c = sz
           \<and> node_at st (left_c c) l \<and> node_at st (right_c c) r))"

definition tree_at :: "machine \<Rightarrow> nat \<Rightarrow> IsolationTree \<Rightarrow> bool" where
  "tree_at st q tr =
     (q \<noteq> 0 \<and>
      (case tree_heap st q of None \<Rightarrow> False
       | Some tc \<Rightarrow> max_depth_c tc = max_depth tr \<and> node_at st (root_c tc) (root tr)))"

definition forest_at :: "machine \<Rightarrow> nat \<Rightarrow> IsolationForest \<Rightarrow> bool" where
  "forest_at st f forest =
     (f \<noteq> 0 \<and>
      (case forest_heap st f of None \<Rightarrow> False
       | Some fc \<Rightarrow>
           num_trees_c fc = num_trees forest \<and> subsample_size_c fc = subsample_size forest
           \<and> list_all2 (tree_at st) (trees_c fc) (trees forest)))"

primrec deepest :: "IsolationTree list \<Rightarrow> nat" where
  "deepest [] = 0"
| "deepest (tr # trs) = max (levels (root tr)) (deepest trs)"

subsection \<open>Concrete inputs\<close>

text \<open>
  Two generators (one that always returns 0, one that counts its calls), process records
  whose twenty counters are all equal, and the trees they lead to.
\<close>

definition zero_stream :: rand_stream where "zero_stream k = 0"
definition count_stream :: rand_stream where "count_stream k = k"

definition uniform_behavior :: "int \<Rightarrow> ProcessBehavior" where
  "uniform_behavior v =
     \<lparr>syscall_freq = replicate 20 v, total_calls = 20 * v, process_name = ''proc'',
      is_anomaly = False\<rparr>"

definition two_behaviors :: "ProcessBehavior list" where
  "two_behaviors = [uniform_behavior 1, uniform_behavior 2]"

definition uniform_process :: "int \<Rightarrow> Process" where
  "uniform_process v = \<lparr>freq = replicate 20 v, is_anomaly_p = False\<rparr>"

definition two_processes :: "Process list" where
  "two_processes = [uniform_process 1, uniform_process 2]"

fun right_chain :: "nat \<Rightarrow> IsolationNode" where
  "right_chain 0 = IsolationNode True (- 1) 0 None None 2"
| "right_chain (Suc k) = IsolationNode False 0 1 None (Some (right_chain k)) 2"

fun right_chain_n :: "nat \<Rightarrow> Node" where
  "right_chain_n 0 = Node True 0 0 2 None None"
| "right_chain_n (Suc k) = Node False 0 1 2 None (Some (right_chain_n k))"

definition split_pair :: "int \<Rightarrow> IsolationTree" where
  "split_pair a =
     \<lparr>root = Some (IsolationNode False a 2 (Some (IsolationNode True (- 1) 0 None None 1))
                     (Some (IsolationNode True (- 1) 0 None None 1)) 2),
      max_depth = 10\<rparr>"

definition leaf_tree :: "int \<Rightarrow> IsolationTree" where
  "leaf_tree n = \<lparr>root = Some (IsolationNode True (- 1) 0 None None n), max_depth = 10\<rparr>"

text \<open>
  A memory that holds the forest trained on \<open>two_behaviors\<close> with \<open>count_stream\<close>: tree
  \<open>q\<close> (from 1 to 10) has its root at node \<open>3q - 2\<close> and its two leaves at \<open>3q - 1\<close> and
  \<open>3q\<close>; the forest object is at address 1 and the first training process at address 1.
\<close>

definition pair_nodes :: "nat \<Rightarrow> node_cell option" where
  "pair_nodes p =
     (if p = 0 \<or> 30 < p then None
      else if p mod 3 = 1
      then Some \<lparr>is_leaf_c = False,
                 split_attribute_c = [2, 6, 10, 14, 18, 2, 6, 10, 14, 18] ! (p div 3),
                 split_value_c = 2, left_c = p + 1, right_c = p + 2, size_c = 2\<rparr>
      else Some \<lparr>is_leaf_c = True, split_attribute_c = - 1, split_value_c = 0,
                 left_c = 0, right_c = 0, size_c = 1\<rparr>)"

definition pair_trees :: "nat \<Rightarrow> tree_cell option" where
  "pair_trees q =
     (if q = 0 \<or> 10 < q then None else Some \<lparr>root_c = 3 * q - 2, max_depth_c = 10\<rparr>)"

definition pair_machine :: machine where
  "pair_machine =
     \<lparr>node_heap = pair_nodes, tree_heap = pair_trees,
      forest_heap = (\<lambda>f. if f = 1
         then Some \<lparr>trees_c = [1, 2, 3, 4, 5, 6, 7, 8, 9, 10], num_trees_c = 10,
                    subsample_size_c = 2\<rparr>
         else None),
      behavior_heap = (\<lambda>p. if p = 1 then Some (uniform_behavior 1) else None),
      rand_calls = 40\<rparr>"

definition pair_forest :: IsolationForest where
  "pair_forest =
     \<lparr>trees = map split_pair [2, 6, 10, 14, 18, 2, 6, 10, 14, 18], num_trees = 10,
      subsample_size = 2\<rparr>"

section \<open>Properties of the loops, the builders and the score\<close>


subsection \<open>The generator\<close>

lemma random_int_range:
  assumes "lo \<le> hi"
  shows "lo \<le> fst (random_int rnd lo hi s) \<and> fst (random_int rnd lo hi s) \<le> hi"
proof -
  have pos: "0 < hi - lo + 1" using assms by simp
  have "0 \<le> int (rnd s) mod (hi - lo + 1)" by (rule pos_mod_sign[OF pos])
  moreover have "int (rnd s) mod (hi - lo + 1) < hi - lo + 1" by (rule pos_mod_bound[OF pos])
  moreover have "fst (random_int rnd lo hi s) = lo + int (rnd s) mod (hi - lo + 1)"
    by (simp add: random_int_def rand_def)
  ultimately show ?thesis by linarith
qed

lemma rand_draw_range:
  assumes "lo \<le> hi"
  shows "lo \<le> lo + fst (rand rnd s) mod (hi - lo + 1) \<and> lo + fst (rand rnd s) mod (hi - lo + 1) \<le> hi"
  using random_int_range[OF assms, of rnd s] by (simp add: random_int_def rand_def)

subsection \<open>The two scanning loops, for any way of reading a value\<close>

lemma mm_fold_bounds:
  "fold (mm_step g) xs (a, b) = (a', b') \<Longrightarrow>
     a' \<le> a \<and> b \<le> b' \<and> (\<forall>i \<in> set xs. a' \<le> g i \<and> g i \<le> b')
     \<and> (a' = a \<or> a' \<in> g ` set xs) \<and> (b' = b \<or> b' \<in> g ` set xs)"
proof (induction xs arbitrary: a b)
  case Nil
  then show ?case by simp
next
  case (Cons x xs)
  from Cons.prems have "fold (mm_step g) xs (min (g x) a, max (g x) b) = (a', b')"
    by simp
  from Cons.IH[OF this] show ?case by (auto simp: min_def max_def split: if_splits)
qed

lemma mm_scan_bounds:
  assumes f: "fold (mm_step g) [1..<k] (g 0, g 0) = (mn, mx)" and i: "i < k"
  shows "mn \<le> g i \<and> g i \<le> mx"
proof (cases "i = 0")
  case True
  with mm_fold_bounds[OF f] show ?thesis by auto
next
  case False
  with i have "i \<in> set [1..<k]" by auto
  with mm_fold_bounds[OF f] show ?thesis by blast
qed

lemma mm_scan_attained:
  assumes f: "fold (mm_step g) [1..<k] (g 0, g 0) = (mn, mx)" and k: "0 < k"
  shows "(\<exists>j < k. g j = mn) \<and> (\<exists>j < k. g j = mx)"
proof -
  note b = mm_fold_bounds[OF f]
  have "\<exists>j < k. g j = mn"
  proof (cases "mn = g 0")
    case True
    with k show ?thesis by blast
  next
    case False
    with b have "mn \<in> g ` set [1..<k]" by blast
    then show ?thesis by auto
  qed
  moreover have "\<exists>j < k. g j = mx"
  proof (cases "mx = g 0")
    case True
    with k show ?thesis by blast
  next
    case False
    with b have "mx \<in> g ` set [1..<k]" by blast
    then show ?thesis by auto
  qed
  ultimately show ?thesis by blast
qed

lemma mm_scan_equal_iff:
  assumes f: "fold (mm_step g) [1..<k] (g 0, g 0) = (mn, mx)" and k: "0 < k"
  shows "mn = mx \<longleftrightarrow> (\<forall>i < k. \<forall>j < k. g i = g j)"
proof
  assume e: "mn = mx"
  show "\<forall>i < k. \<forall>j < k. g i = g j"
  proof (intro allI impI)
    fix i j assume "i < k" "j < k"
    with mm_scan_bounds[OF f] e have "g i = mn" "g j = mn" by (simp_all add: antisym)
    then show "g i = g j" by simp
  qed
next
  assume a: "\<forall>i < k. \<forall>j < k. g i = g j"
  from mm_scan_attained[OF f k] obtain i j where "i < k" "g i = mn" "j < k" "g j = mx" by blast
  with a show "mn = mx" by metis
qed

lemma pt_fold:
  "fold (pt_step P g) xs (l, r) =
     (l @ map g (filter P xs), r @ map g (filter (\<lambda>i. \<not> P i) xs))"
  by (induction xs arbitrary: l r) auto

lemma pt_scan_facts:
  assumes "fold (pt_step P g) [0..<k] ([], []) = (li, ri)"
  shows "(li = [] \<longleftrightarrow> (\<forall>i < k. \<not> P i))" and "(ri = [] \<longleftrightarrow> (\<forall>i < k. P i))"
    and "length li + length ri = k"
proof -
  from assms have li: "li = map g (filter P [0..<k])"
    and ri: "ri = map g (filter (\<lambda>i. \<not> P i) [0..<k])"
    by (simp_all add: pt_fold)
  show "li = [] \<longleftrightarrow> (\<forall>i < k. \<not> P i)" by (auto simp: li filter_empty_conv)
  show "ri = [] \<longleftrightarrow> (\<forall>i < k. P i)" by (auto simp: ri filter_empty_conv)
  show "length li + length ri = k"
    using sum_length_filter_compl[of P "[0..<k]"] by (simp add: li ri)
qed

subsection \<open>The loops of \<open>build_isolation_tree\<close>\<close>

lemma min_max_loop_fold:
  "min_max_loop data indices attr n =
     fold (mm_step (freq_at data indices attr)) [1..<nat n]
       (freq_at data indices attr 0, freq_at data indices attr 0)"
  unfolding min_max_loop_def
  by (rule arg_cong[where f="\<lambda>f. fold f _ _"]) (auto simp: fun_eq_iff Let_def min_def max_def)

lemma partition_loop_fold:
  "partition_loop data indices attr sv n =
     fold (pt_step (\<lambda>i. freq_at data indices attr i < sv) (\<lambda>i. indices ! i)) [0..<nat n] ([], [])"
  unfolding partition_loop_def
  by (rule arg_cong[where f="\<lambda>f. fold f _ _"]) (auto simp: fun_eq_iff)

lemma build_isolation_tree_step:
  obtains (stop) "md \<le> cd \<or> n \<le> 1" and
      "build_isolation_tree rnd data indices n cd md s = (IsolationNode True (- 1) 0 None None n, s)"
  | (uniform) attr s1 mn where "cd < md" and "2 \<le> n" and
      "random_int rnd 0 (MAX_SYSCALLS - 1) s = (attr, s1)" and
      "min_max_loop data indices attr n = (mn, mn)" and
      "build_isolation_tree rnd data indices n cd md s = (IsolationNode True attr 0 None None n, s1)"
  | (internal) attr s1 mn mx sv li ri s2 s3 s4 where "cd < md" and "2 \<le> n" and
      "random_int rnd 0 (MAX_SYSCALLS - 1) s = (attr, s1)" and
      "min_max_loop data indices attr n = (mn, mx)" and "mn < mx" and
      "random_int rnd mn mx s1 = (sv, s2)" and "mn \<le> sv" and "sv \<le> mx" and
      "partition_loop data indices attr sv n = (li, ri)" and "ri \<noteq> []" and
      "build_isolation_tree rnd data indices n cd md s =
         (IsolationNode False attr sv
            (if li = [] then None
             else Some (fst (build_isolation_tree rnd data li (int (length li)) (cd + 1) md s2)))
            (Some (fst (build_isolation_tree rnd data ri (int (length ri)) (cd + 1) md s3)))
            n, s4)"
proof (cases "md \<le> cd \<or> n \<le> 1")
  case True
  then have "build_isolation_tree rnd data indices n cd md s =
      (IsolationNode True (- 1) 0 None None n, s)"
    by (subst build_isolation_tree.simps) simp
  with True show ?thesis by (rule stop)
next
  case False
  then have c: "cd < md" "2 \<le> n" by auto
  obtain attr s1 where a: "random_int rnd 0 (MAX_SYSCALLS - 1) s = (attr, s1)" by fastforce
  obtain mn mx where m: "min_max_loop data indices attr n = (mn, mx)" by fastforce
  from m have f: "fold (mm_step (freq_at data indices attr)) [1..<nat n]
       (freq_at data indices attr 0, freq_at data indices attr 0) = (mn, mx)"
    by (simp add: min_max_loop_fold)
  from c have k: "0 < nat n" by simp
  show ?thesis
  proof (cases "mn = mx")
    case True
    with False a m have "build_isolation_tree rnd data indices n cd md s =
        (IsolationNode True attr 0 None None n, s1)"
      by (subst build_isolation_tree.simps) simp
    with c a m True show ?thesis using uniform by blast
  next
    case ne: False
    obtain sv s2 where v: "random_int rnd mn mx s1 = (sv, s2)" by fastforce
    obtain li ri where p: "partition_loop data indices attr sv n = (li, ri)" by fastforce
    have le: "mn \<le> mx" using mm_scan_bounds[OF f k] by simp
    with ne have lt: "mn < mx" by simp
    have r: "mn \<le> sv" "sv \<le> mx" using random_int_range[OF le, of rnd s1] v by simp_all
    from mm_scan_attained[OF f k] obtain j where "j < nat n" "freq_at data indices attr j = mx"
      by blast
    with r have "\<not> (\<forall>i < nat n. freq_at data indices attr i < sv)" by auto
    with pt_scan_facts(2)[OF p[unfolded partition_loop_fold]] have ri: "ri \<noteq> []" by simp
    define s3 where "s3 = (if li = [] then s2
       else snd (build_isolation_tree rnd data li (int (length li)) (cd + 1) md s2))"
    have "build_isolation_tree rnd data indices n cd md s =
         (IsolationNode False attr sv
            (if li = [] then None
             else Some (fst (build_isolation_tree rnd data li (int (length li)) (cd + 1) md s2)))
            (Some (fst (build_isolation_tree rnd data ri (int (length ri)) (cd + 1) md s3)))
            n, snd (build_isolation_tree rnd data ri (int (length ri)) (cd + 1) md s3))"
      using False a m ne v p ri
      by (subst build_isolation_tree.simps) (simp add: s3_def split: prod.splits)
    with c a m lt v r p ri show ?thesis using internal by blast
  qed
qed

subsection \<open>The loops of \<open>build_tree\<close>\<close>

lemma min_max_scan_fold:
  "min_max_scan data idx attr n =
     fold (mm_step (freq_idx data idx attr)) [1..<nat n]
       (freq_idx data idx attr 0, freq_idx data idx attr 0)"
  unfolding min_max_scan_def
  by (rule arg_cong[where f="\<lambda>f. fold f _ _"]) (auto simp: fun_eq_iff Let_def min_def max_def)

lemma split_scan_fold:
  "split_scan data idx attr sv n =
     fold (pt_step (\<lambda>i. freq_idx data idx attr i < sv) (\<lambda>i. idx ! i)) [0..<nat n] ([], [])"
  unfolding split_scan_def
  by (rule arg_cong[where f="\<lambda>f. fold f _ _"]) (auto simp: fun_eq_iff)

lemma build_tree_step:
  obtains (stop) "MAX_DEPTH \<le> depth \<or> n \<le> 1" and
      "build_tree rnd data idx n depth s = (Node True 0 0 n None None, s)"
  | (uniform) attr mn where "depth < MAX_DEPTH" and "2 \<le> n" and
      "attr = fst (rand rnd s) mod MAX_SYSCALLS" and
      "min_max_scan data idx attr n = (mn, mn)" and
      "build_tree rnd data idx n depth s = (Node True 0 0 n None None, Suc s)"
  | (internal) attr mn mx sv li ri s3 s4 where "depth < MAX_DEPTH" and "2 \<le> n" and
      "attr = fst (rand rnd s) mod MAX_SYSCALLS" and
      "min_max_scan data idx attr n = (mn, mx)" and "mn < mx" and
      "sv = mn + fst (rand rnd (Suc s)) mod (mx - mn + 1)" and "mn \<le> sv" and "sv \<le> mx" and
      "split_scan data idx attr sv n = (li, ri)" and "ri \<noteq> []" and
      "build_tree rnd data idx n depth s =
         (Node False attr sv n
            (if li = [] then None
             else Some (fst (build_tree rnd data li (int (length li)) (depth + 1) (Suc (Suc s)))))
            (Some (fst (build_tree rnd data ri (int (length ri)) (depth + 1) s3))),
          s4)"
proof (cases "MAX_DEPTH \<le> depth \<or> n \<le> 1")
  case True
  then have "build_tree rnd data idx n depth s = (Node True 0 0 n None None, s)"
    by (subst build_tree.simps) simp
  with True show ?thesis by (rule stop)
next
  case False
  then have c: "depth < MAX_DEPTH" "2 \<le> n" by auto
  define attr where "attr = fst (rand rnd s) mod MAX_SYSCALLS"
  have r1: "rand rnd s = (fst (rand rnd s), Suc s)" by (simp add: rand_def)
  obtain mn mx where m: "min_max_scan data idx attr n = (mn, mx)" by fastforce
  from m have f: "fold (mm_step (freq_idx data idx attr)) [1..<nat n]
       (freq_idx data idx attr 0, freq_idx data idx attr 0) = (mn, mx)"
    by (simp add: min_max_scan_fold)
  from c have k: "0 < nat n" by simp
  show ?thesis
  proof (cases "mn = mx")
    case True
    with False m have "build_tree rnd data idx n depth s = (Node True 0 0 n None None, Suc s)"
      by (subst build_tree.simps) (simp add: rand_def attr_def)
    with c m True show ?thesis using uniform attr_def by blast
  next
    case ne: False
    define sv where "sv = mn + fst (rand rnd (Suc s)) mod (mx - mn + 1)"
    obtain li ri where p: "split_scan data idx attr sv n = (li, ri)" by fastforce
    have le: "mn \<le> mx" using mm_scan_bounds[OF f k] by simp
    with ne have lt: "mn < mx" by simp
    have r: "mn \<le> sv" "sv \<le> mx" using rand_draw_range[OF le, of rnd "Suc s"] by (simp_all add: sv_def)
    from mm_scan_attained[OF f k] obtain j where "j < nat n" "freq_idx data idx attr j = mx"
      by blast
    with r have "\<not> (\<forall>i < nat n. freq_idx data idx attr i < sv)" by auto
    with pt_scan_facts(2)[OF p[unfolded split_scan_fold]] have ri: "ri \<noteq> []" by simp
    define s3 where "s3 = (if li = [] then Suc (Suc s)
       else snd (build_tree rnd data li (int (length li)) (depth + 1) (Suc (Suc s))))"
    have "build_tree rnd data idx n depth s =
         (Node False attr sv n
            (if li = [] then None
             else Some (fst (build_tree rnd data li (int (length li)) (depth + 1) (Suc (Suc s)))))
            (Some (fst (build_tree rnd data ri (int (length ri)) (depth + 1) s3))),
          snd (build_tree rnd data ri (int (length ri)) (depth + 1) s3))"
      using False m ne p ri
      by (subst build_tree.simps)
         (simp add: s3_def rand_def attr_def sv_def Let_def split: prod.splits)
    with c m lt r p ri show ?thesis using internal attr_def sv_def by blast
  qed
qed

subsection \<open>Invariants of the built trees\<close>

lemma build_isolation_tree_right_present:
  "right_present (Some (fst (build_isolation_tree rnd data indices n cd md s)))"
proof (induction "nat (md - cd)" arbitrary: indices n cd s rule: less_induct)
  case less
  show ?case
  proof (cases rule: build_isolation_tree_step[of md cd n rnd data indices s])
    case stop
    then show ?thesis by simp
  next
    case (uniform attr s1 mn)
    then show ?thesis by simp
  next
    case (internal attr s1 mn mx sv li ri s2 s3 s4)
    from internal(1) have d: "nat (md - (cd + 1)) < nat (md - cd)" by simp
    show ?thesis using internal(11) less[OF d] by simp
  qed
qed

lemma build_tree_right_present:
  "right_present_n (Some (fst (build_tree rnd data idx n depth s)))"
proof (induction "nat (MAX_DEPTH - depth)" arbitrary: idx n depth s rule: less_induct)
  case less
  show ?case
  proof (cases rule: build_tree_step[of depth n rnd data idx s])
    case stop
    then show ?thesis by simp
  next
    case (uniform attr mn)
    then show ?thesis by simp
  next
    case (internal attr mn mx sv li ri s3 s4)
    from internal(1) have d: "nat (MAX_DEPTH - (depth + 1)) < nat (MAX_DEPTH - depth)" by simp
    show ?thesis using internal(11) less[OF d] by simp
  qed
qed

lemma build_isolation_tree_levels:
  "levels (Some (fst (build_isolation_tree rnd data indices n cd md s))) \<le> Suc (nat (md - cd))"
proof (induction "nat (md - cd)" arbitrary: indices n cd s rule: less_induct)
  case less
  show ?case
  proof (cases rule: build_isolation_tree_step[of md cd n rnd data indices s])
    case stop
    then show ?thesis by simp
  next
    case (uniform attr s1 mn)
    then show ?thesis by simp
  next
    case (internal attr s1 mn mx sv li ri s2 s3 s4)
    from internal(1) have d: "nat (md - (cd + 1)) < nat (md - cd)" by simp
    from internal(1) have e: "Suc (nat (md - (cd + 1))) = nat (md - cd)" by simp
    show ?thesis
      using internal(11) less[OF d, of li "int (length li)" s2]
        less[OF d, of ri "int (length ri)" s3] e
      by simp
  qed
qed

lemma build_tree_levels:
  "levels_n (Some (fst (build_tree rnd data idx n depth s))) \<le> Suc (nat (MAX_DEPTH - depth))"
proof (induction "nat (MAX_DEPTH - depth)" arbitrary: idx n depth s rule: less_induct)
  case less
  show ?case
  proof (cases rule: build_tree_step[of depth n rnd data idx s])
    case stop
    then show ?thesis by simp
  next
    case (uniform attr mn)
    then show ?thesis by simp
  next
    case (internal attr mn mx sv li ri s3 s4)
    from internal(1) have d: "nat (MAX_DEPTH - (depth + 1)) < nat (MAX_DEPTH - depth)" by simp
    from internal(1) have e: "Suc (nat (MAX_DEPTH - (depth + 1))) = nat (MAX_DEPTH - depth)"
      by simp
    show ?thesis
      using internal(11) less[OF d, of li "int (length li)" "Suc (Suc s)"]
        less[OF d, of ri "int (length ri)" s3] e
      by simp
  qed
qed

lemma build_isolation_tree_leaf_total:
  "leaf_total (Some (fst (build_isolation_tree rnd data indices n cd md s))) = n"
proof (induction "nat (md - cd)" arbitrary: indices n cd s rule: less_induct)
  case less
  show ?case
  proof (cases rule: build_isolation_tree_step[of md cd n rnd data indices s])
    case stop
    then show ?thesis by simp
  next
    case (uniform attr s1 mn)
    then show ?thesis by simp
  next
    case (internal attr s1 mn mx sv li ri s2 s3 s4)
    from internal(1) have d: "nat (md - (cd + 1)) < nat (md - cd)" by simp
    from pt_scan_facts(3)[OF internal(9)[unfolded partition_loop_fold]] internal(2)
    have len: "int (length li) + int (length ri) = n" by simp
    show ?thesis
      using internal(11) less[OF d, of li "int (length li)" s2]
        less[OF d, of ri "int (length ri)" s3] len
      by (cases "li = []") simp_all
  qed
qed

lemma build_tree_leaf_total:
  "leaf_total_n (Some (fst (build_tree rnd data idx n depth s))) = n"
proof (induction "nat (MAX_DEPTH - depth)" arbitrary: idx n depth s rule: less_induct)
  case less
  show ?case
  proof (cases rule: build_tree_step[of depth n rnd data idx s])
    case stop
    then show ?thesis by simp
  next
    case (uniform attr mn)
    then show ?thesis by simp
  next
    case (internal attr mn mx sv li ri s3 s4)
    from internal(1) have d: "nat (MAX_DEPTH - (depth + 1)) < nat (MAX_DEPTH - depth)" by simp
    from pt_scan_facts(3)[OF internal(9)[unfolded split_scan_fold]] internal(2)
    have len: "int (length li) + int (length ri) = n" by simp
    show ?thesis
      using internal(11) less[OF d, of li "int (length li)" "Suc (Suc s)"]
        less[OF d, of ri "int (length ri)" s3] len
      by (cases "li = []") simp_all
  qed
qed

lemma build_isolation_tree_total:
  "build_isolation_tree_dom (rnd, data, indices, n, cd, md, s)"
proof -
  have "All build_isolation_tree_dom"
    by (rule "build_isolation_tree.termination"
          [of "measure (\<lambda>(rnd, data, indices, n, current_depth, depth_limit, s).
                   nat (depth_limit - current_depth))"]) auto
  then show ?thesis by blast
qed

lemma build_tree_total: "build_tree_dom (rnd, data, idx, n, depth, s)"
proof -
  have "All build_tree_dom"
    by (rule "build_tree.termination"
          [of "measure (\<lambda>(rnd, data, idx, n, depth, s). nat (MAX_DEPTH - depth))"]) auto
  then show ?thesis by blast
qed

subsection \<open>The normalisation constant\<close>

lemma c_factor_low: "n \<le> 1 \<Longrightarrow> c_factor n = 0"
  by (simp add: c_factor_def)

lemma c_factor_two: "c_factor 2 = - 1"
  by (simp add: c_factor_def harmonic_number_def)

lemma new_c_factor_low: "n \<le> 1 \<Longrightarrow> new_c_factor n = 0"
  by (simp add: new_c_factor_def)

lemma new_c_factor_spec: "new_c_factor n = spec_c_factor n"
  by (simp add: new_c_factor_def spec_c_factor_def)

lemma c_factor_spec_iff: "c_factor n = spec_c_factor n \<longleftrightarrow> n \<noteq> 2"
proof (cases "n = 2")
  case True
  then show ?thesis by (simp add: c_factor_two spec_c_factor_def)
next
  case False
  then show ?thesis by (simp add: c_factor_def harmonic_number_def spec_c_factor_def)
qed

lemma new_c_factor_formula:
  "2 \<le> n \<Longrightarrow> new_c_factor n =
     2 * (ln (real_of_int (n - 1)) + 0.5772156649) - 2 * (real_of_int n - 1) / real_of_int n"
  by (simp add: new_c_factor_def)

lemma c_factor_formula:
  "3 \<le> n \<Longrightarrow> c_factor n =
     2 * (ln (real_of_int (n - 1)) + 0.5772156649) - 2 * (real_of_int n - 1) / real_of_int n"
  by (simp add: c_factor_def harmonic_number_def)

lemma ln_lower:
  assumes "2 \<le> (x::real)" shows "1/2 \<le> ln x"
proof -
  have "ln (1 / x) \<le> 1 / x - 1" using assms by (intro ln_le_minus_one) simp
  moreover have "ln (1 / x) = - ln x" using assms by (simp add: ln_div)
  moreover have "1 / x \<le> 1 / 2" using assms by (simp add: field_simps)
  ultimately show ?thesis by linarith
qed

lemma formula_positive:
  assumes "3 \<le> n"
  shows "0 < 2 * (ln (real_of_int (n - 1)) + 0.5772156649) - 2 * (real_of_int n - 1) / real_of_int n"
proof -
  have "2 \<le> real_of_int (n - 1)" using assms by simp
  from ln_lower[OF this] have l: "1/2 \<le> ln (real_of_int (n - 1))" .
  have "2 * (real_of_int n - 1) / real_of_int n \<le> 2" using assms by (simp add: field_simps)
  moreover have "(2::real) < 2 * (1/2 + 0.5772156649)" by simp
  moreover have "2 * (1/2 + 0.5772156649) \<le> 2 * (ln (real_of_int (n - 1)) + 0.5772156649)"
    using l by simp
  ultimately show ?thesis by linarith
qed

lemma c_factor_zero_iff: "c_factor n = 0 \<longleftrightarrow> n \<le> 1"
proof (cases "n \<le> 1")
  case True
  then show ?thesis by (simp add: c_factor_low)
next
  case False
  show ?thesis
  proof (cases "n = 2")
    case True
    then show ?thesis by (simp add: c_factor_two)
  next
    case f: False
    with False have "3 \<le> n" by simp
    from c_factor_formula[OF this] formula_positive[OF this] False show ?thesis by simp
  qed
qed

lemma new_c_factor_subsample: "0 < new_c_factor SUBSAMPLE_SIZE"
proof -
  have "new_c_factor 8 =
     2 * (ln (real_of_int (8 - 1)) + 0.5772156649) - 2 * (real_of_int 8 - 1) / real_of_int 8"
    by (rule new_c_factor_formula) simp
  moreover have "0 < 2 * (ln (real_of_int (8 - 1)) + 0.5772156649) - 2 * (real_of_int 8 - 1) / real_of_int 8"
    by (rule formula_positive) simp
  ultimately have "0 < new_c_factor 8" by (simp only:)
  then show ?thesis by (simp only: SUBSAMPLE_SIZE_def)
qed

subsection \<open>Score and training\<close>

lemma fold_add_sum: "fold (\<lambda>t acc. acc + g t) xs (a::real) = a + sum_list (map g xs)"
  by (induction xs arbitrary: a) simp_all

lemma fold_add_nth:
  "fold (\<lambda>t acc. acc + f (ts ! t)) [0..<length ts] (a::real) = a + sum_list (map f ts)"
proof -
  have "map (\<lambda>t. f (ts ! t)) [0..<length ts] = map f ts"
    by (rule nth_equalityI) simp_all
  then show ?thesis by (simp add: fold_add_sum)
qed

lemma anomaly_score_sum:
  assumes "nat (num_trees forest) = length (trees forest)"
  shows "anomaly_score forest sample =
     (if c_factor (subsample_size forest) = 0 then 0.5
      else 2 powr (- (sum_list (map (\<lambda>tr. path_length (root tr) sample 0) (trees forest))
                         / real_of_int (num_trees forest))
                     / c_factor (subsample_size forest)))"
  using fold_add_nth[of "\<lambda>tr. path_length (root tr) sample 0" "trees forest" 0]
  by (simp add: anomaly_score_def Let_def assms)

lemma path_length_reads_freq:
  "syscall_freq a = syscall_freq b \<Longrightarrow> path_length t a d = path_length t b d"
  by (induction t a d rule: path_length.induct) (auto simp: Let_def)

lemma anomaly_score_reads_freq:
  assumes "syscall_freq a = syscall_freq b"
  shows "anomaly_score forest a = anomaly_score forest b"
proof -
  have "(\<lambda>t acc. acc + path_length (root (trees forest ! t)) a 0)
      = (\<lambda>t acc. acc + path_length (root (trees forest ! t)) b 0)"
    using path_length_reads_freq[OF assms] by simp
  then show ?thesis by (simp add: anomaly_score_def)
qed

lemma train_loop_empty:
  "train_loop rnd training_data 0 0 k s = (replicate k (leaf_tree 0), s)"
  by (induction k) (simp_all add: build_isolation_tree.simps MAX_TREE_DEPTH_def leaf_tree_def)

lemma train_empty:
  "train_isolation_forest rnd training_data 0 s =
     (\<lparr>trees = replicate 10 (leaf_tree 0), num_trees = 10, subsample_size = 0\<rparr>, s)"
  by (simp add: train_isolation_forest_def train_loop_empty SUBSAMPLE_SIZE_def NUM_TREES_def)

subsection \<open>The concrete trees\<close>

lemma trained_pair_forest:
  "train_isolation_forest count_stream two_behaviors 2 0 =
     (\<lparr>trees = map split_pair [2, 6, 10, 14, 18, 2, 6, 10, 14, 18], num_trees = 10,
       subsample_size = 2\<rparr>, 40)"
  by code_simp

lemma path_length_split_pair: "path_length (root (split_pair a)) sample 0 = 1"
  by (simp add: split_pair_def c_factor_low)

lemma chain_built:
  "fst (build_isolation_tree zero_stream two_behaviors [0, 1] 2 0 10 0) = right_chain 10"
  by code_simp

lemma chain_built_n:
  "fst (build_tree zero_stream two_processes [0, 1] 2 0 0) = right_chain_n 10"
  by code_simp

lemma path_length_right_chain:
  "path_length (Some (right_chain k)) (uniform_behavior 0) d = real_of_int d + real k + c_factor 2"
  by (induction k arbitrary: d) (simp_all add: uniform_behavior_def)

lemma get_path_right_chain_n:
  "0 < k \<Longrightarrow> get_path (Some (right_chain_n k)) (uniform_process 0) d = real_of_int d + 1"
  by (cases k) (simp_all add: uniform_process_def new_c_factor_def)

subsection \<open>Routing the samples of a call through its tree\<close>

lemma samples_read_all: "samples_read xs (int (length xs)) = xs"
  by (simp add: samples_read_def map_nth)

lemma length_samples_read: "length (samples_read indices n) = nat n"
  by (simp add: samples_read_def)

lemma partition_loop_samples:
  "partition_loop data indices attr sv n =
     (filter (\<lambda>i. sample_value data attr i < sv) (samples_read indices n),
      filter (\<lambda>i. \<not> sample_value data attr i < sv) (samples_read indices n))"
  by (simp add: partition_loop_fold pt_fold samples_read_def filter_map comp_def freq_at_def
        sample_value_def)

lemma split_scan_samples:
  "split_scan data idx attr sv n =
     (filter (\<lambda>i. process_value data attr i < sv) (samples_read idx n),
      filter (\<lambda>i. \<not> process_value data attr i < sv) (samples_read idx n))"
  by (simp add: split_scan_fold pt_fold samples_read_def filter_map comp_def freq_idx_def
        process_value_def)

lemma set_samples_read: "set (samples_read indices n) = (\<lambda>i. indices ! i) ` {..<nat n}"
  by (simp add: samples_read_def atLeast0LessThan)

lemma agree_on_read:
  "agree_on data attr (samples_read indices n) \<longleftrightarrow>
     (\<forall>i < nat n. \<forall>j < nat n. freq_at data indices attr i = freq_at data indices attr j)"
proof -
  have f: "\<And>i. sample_value data attr (indices ! i) = freq_at data indices attr i"
    by (simp add: freq_at_def sample_value_def)
  show ?thesis unfolding agree_on_def set_samples_read by (simp add: f) (simp add: Ball_def)?
qed

lemma agree_on_n_read:
  "agree_on_n data attr (samples_read idx n) \<longleftrightarrow>
     (\<forall>i < nat n. \<forall>j < nat n. freq_idx data idx attr i = freq_idx data idx attr j)"
proof -
  have f: "\<And>i. process_value data attr (idx ! i) = freq_idx data idx attr i"
    by (simp add: freq_idx_def process_value_def)
  show ?thesis unfolding agree_on_n_def set_samples_read by (simp add: f) (simp add: Ball_def)?
qed

lemma min_max_loop_agree:
  assumes "min_max_loop data indices attr n = (mn, mx)" and "0 < nat n"
  shows "mn = mx \<longleftrightarrow> agree_on data attr (samples_read indices n)"
  using mm_scan_equal_iff[OF assms(1)[unfolded min_max_loop_fold] assms(2)]
  by (simp only: agree_on_read)

lemma min_max_scan_agree:
  assumes "min_max_scan data idx attr n = (mn, mx)" and "0 < nat n"
  shows "mn = mx \<longleftrightarrow> agree_on_n data attr (samples_read idx n)"
  using mm_scan_equal_iff[OF assms(1)[unfolded min_max_scan_fold] assms(2)]
  by (simp only: agree_on_n_read)

lemma build_isolation_tree_routed:
  "0 \<le> n \<Longrightarrow>
   routed data md cd (samples_read indices n)
     (Some (fst (build_isolation_tree rnd data indices n cd md s)))"
proof (induction "nat (md - cd)" arbitrary: indices n cd s rule: less_induct)
  case less
  show ?case
  proof (cases rule: build_isolation_tree_step[of md cd n rnd data indices s])
    case stop
    with less.prems show ?thesis by (auto simp: length_samples_read)
  next
    case (uniform attr s1 mn)
    from uniform(2) have k: "0 < nat n" by simp
    from min_max_loop_agree[OF uniform(4) k]
    have "agree_on data attr (samples_read indices n)" by simp
    with uniform(5) less.prems show ?thesis by (simp add: length_samples_read)
  next
    case (internal attr s1 mn mx sv li ri s2 s3 s4)
    from internal(1) have d: "nat (md - (cd + 1)) < nat (md - cd)" by simp
    from internal(2) have k: "0 < nat n" by simp
    from min_max_loop_agree[OF internal(4) k] internal(5)
    have na: "\<not> agree_on data attr (samples_read indices n)" by simp
    have "(0::int) \<le> MAX_SYSCALLS - 1" by (simp add: MAX_SYSCALLS_def)
    from random_int_range[OF this, of rnd s] internal(3)
    have ar: "0 \<le> attr" "attr < MAX_SYSCALLS" by simp_all
    from internal(9) have li: "li = filter (\<lambda>i. sample_value data attr i < sv) (samples_read indices n)"
      and ri: "ri = filter (\<lambda>i. \<not> sample_value data attr i < sv) (samples_read indices n)"
      by (simp_all add: partition_loop_samples)
    have l: "routed data md (cd + 1) li
      (if li = [] then None
       else Some (fst (build_isolation_tree rnd data li (int (length li)) (cd + 1) md s2)))"
      using less.hyps[OF d, of "int (length li)" li s2] by (simp add: samples_read_all)
    have r: "routed data md (cd + 1) ri
      (Some (fst (build_isolation_tree rnd data ri (int (length ri)) (cd + 1) md s3)))"
      using less.hyps[OF d, of "int (length ri)" ri s3] by (simp add: samples_read_all)
    have sz: "int (length (samples_read indices n)) = n"
      using less.prems by (simp add: length_samples_read)
    have two: "2 \<le> length (samples_read indices n)"
      using internal(2) by (simp add: length_samples_read)
    have "routed data md cd (samples_read indices n)
        (Some (IsolationNode False attr sv
            (if li = [] then None
             else Some (fst (build_isolation_tree rnd data li (int (length li)) (cd + 1) md s2)))
            (Some (fst (build_isolation_tree rnd data ri (int (length ri)) (cd + 1) md s3)))
            n))"
      unfolding routed.simps li[symmetric] ri[symmetric]
      using sz two internal(1) ar na l r by simp
    then show ?thesis unfolding internal(11) fst_conv .
  qed
qed


lemma build_tree_routed:
  "0 \<le> n \<Longrightarrow>
   routed_n data depth (samples_read idx n) (Some (fst (build_tree rnd data idx n depth s)))"
proof (induction "nat (MAX_DEPTH - depth)" arbitrary: idx n depth s rule: less_induct)
  case less
  show ?case
  proof (cases rule: build_tree_step[of depth n rnd data idx s])
    case stop
    with less.prems show ?thesis by (auto simp: length_samples_read)
  next
    case (uniform attr mn)
    from uniform(2) have k: "0 < nat n" by simp
    from min_max_scan_agree[OF uniform(4) k]
    have ag: "agree_on_n data attr (samples_read idx n)" by simp
    have "0 \<le> attr" "attr \<le> MAX_SYSCALLS - 1"
      unfolding uniform(3) by (simp_all add: MAX_SYSCALLS_def)
    then have "attr \<in> set [0..MAX_SYSCALLS - 1]" by simp
    with ag have "\<exists>a \<in> set [0..MAX_SYSCALLS - 1]. agree_on_n data a (samples_read idx n)"
      by blast
    with uniform(5) less.prems show ?thesis by (simp add: length_samples_read)
  next
    case (internal attr mn mx sv li ri s3 s4)
    from internal(1) have d: "nat (MAX_DEPTH - (depth + 1)) < nat (MAX_DEPTH - depth)" by simp
    from internal(2) have k: "0 < nat n" by simp
    from min_max_scan_agree[OF internal(4) k] internal(5)
    have na: "\<not> agree_on_n data attr (samples_read idx n)" by simp
    have ar: "0 \<le> attr" "attr < MAX_SYSCALLS"
      unfolding internal(3) by (simp_all add: MAX_SYSCALLS_def)
    from internal(9) have li: "li = filter (\<lambda>i. process_value data attr i < sv) (samples_read idx n)"
      and ri: "ri = filter (\<lambda>i. \<not> process_value data attr i < sv) (samples_read idx n)"
      by (simp_all add: split_scan_samples)
    have l: "routed_n data (depth + 1) li
      (if li = [] then None
       else Some (fst (build_tree rnd data li (int (length li)) (depth + 1) (Suc (Suc s)))))"
      using less.hyps[OF d, of "int (length li)" li "Suc (Suc s)"] by (simp add: samples_read_all)
    have r: "routed_n data (depth + 1) ri
      (Some (fst (build_tree rnd data ri (int (length ri)) (depth + 1) s3)))"
      using less.hyps[OF d, of "int (length ri)" ri s3] by (simp add: samples_read_all)
    have sz: "int (length (samples_read idx n)) = n"
      using less.prems by (simp add: length_samples_read)
    have two: "2 \<le> length (samples_read idx n)"
      using internal(2) by (simp add: length_samples_read)
    have "routed_n data depth (samples_read idx n)
        (Some (Node False attr sv n
            (if li = [] then None
             else Some (fst (build_tree rnd data li (int (length li)) (depth + 1) (Suc (Suc s)))))
            (Some (fst (build_tree rnd data ri (int (length ri)) (depth + 1) s3)))))"
      unfolding routed_n.simps li[symmetric] ri[symmetric]
      using sz two internal(1) ar na l r by simp
    then show ?thesis unfolding internal(11) fst_conv .
  qed
qed

lemma routed_rejects_unsplit_tree:
  "\<not> routed two_behaviors 10 0 [0, 1]
       (Some (IsolationNode False 0 2 None (Some (IsolationNode True (- 1) 0 None None 2)) 2))"
  by (simp add: sample_value_def two_behaviors_def uniform_behavior_def)

lemma routed_rejects_wrong_leaf_size:
  "\<not> routed two_behaviors 10 0 [0, 1]
       (Some (IsolationNode False 0 2 (Some (IsolationNode True (- 1) 0 None None 1))
                (Some (IsolationNode True (- 1) 0 None None 2)) 2))"
  by (simp add: sample_value_def two_behaviors_def uniform_behavior_def)

subsection \<open>The scorer on memory\<close>

lemma load_node_Some:
  "load_node p st = Some (c, st') \<longleftrightarrow> p \<noteq> 0 \<and> node_heap st p = Some c \<and> st' = st"
  by (auto simp: load_node_def split: option.splits)

lemma load_tree_Some:
  "load_tree p st = Some (c, st') \<longleftrightarrow> p \<noteq> 0 \<and> tree_heap st p = Some c \<and> st' = st"
  by (auto simp: load_tree_def split: option.splits)

lemma load_forest_Some:
  "load_forest p st = Some (c, st') \<longleftrightarrow> p \<noteq> 0 \<and> forest_heap st p = Some c \<and> st' = st"
  by (auto simp: load_forest_def split: option.splits)

lemma load_behavior_Some:
  "load_behavior p st = Some (c, st') \<longleftrightarrow> p \<noteq> 0 \<and> behavior_heap st p = Some c \<and> st' = st"
  by (auto simp: load_behavior_def split: option.splits)

lemma path_length_m_state:
  "path_length_m k p smp d st = Some (r, st') \<Longrightarrow> st' = st"
proof (induction k arbitrary: p d)
  case 0
  then show ?case by simp
next
  case (Suc k)
  show ?case
  proof (cases "p = 0")
    case True
    with Suc.prems show ?thesis by simp
  next
    case False
    with Suc.prems obtain c where c: "load_node p st = Some (c, st)"
      by (auto simp: load_node_Some split: option.splits prod.splits)
    show ?thesis
    proof (cases "is_leaf_c c")
      case True
      with Suc.prems False c show ?thesis by simp
    next
      case nl: False
      with Suc.prems False c obtain b where b: "load_behavior smp st = Some (b, st)"
        by (auto simp: load_behavior_Some split: option.splits prod.splits)
      from Suc.prems False c nl b
      consider "path_length_m k (left_c c) smp (d + 1) st = Some (r, st')"
        | "path_length_m k (right_c c) smp (d + 1) st = Some (r, st')"
        | "st' = st"
        by (auto simp: Let_def split: if_splits)
      then show ?thesis by cases (auto dest: Suc.IH)
    qed
  qed
qed

lemma score_loop_state:
  "score_loop k f smp t avg st = Some (r, st') \<Longrightarrow> st' = st"
proof (induction k arbitrary: t avg)
  case 0
  then show ?case by simp
next
  case (Suc k)
  from Suc.prems obtain fc where fc: "load_forest f st = Some (fc, st)"
    by (auto simp: load_forest_Some split: option.splits prod.splits)
  show ?case
  proof (cases "int t < num_trees_c fc")
    case False
    with Suc.prems fc show ?thesis by simp
  next
    case True
    with Suc.prems fc have lt: "t < length (trees_c fc)" by (auto split: if_splits)
    with Suc.prems fc True obtain tc where tc: "load_tree (trees_c fc ! t) st = Some (tc, st)"
      by (auto simp: load_tree_Some split: option.splits prod.splits)
    with Suc.prems fc True lt obtain p st3 where
      p: "path_length_m k (root_c tc) smp 0 st = Some (p, st3)"
      and rest: "score_loop k f smp (Suc t) (avg + p) st3 = Some (r, st')"
      by (auto split: option.splits prod.splits)
    from path_length_m_state[OF p] have "st3 = st" .
    with rest Suc.IH show ?thesis by blast
  qed
qed

lemma anomaly_score_m_state:
  "anomaly_score_m k f smp st = Some (r, st') \<Longrightarrow> st' = st"
  by (auto simp: anomaly_score_m_def load_forest_Some Let_def
           split: option.splits prod.splits if_splits dest: score_loop_state)

lemma node_at_null: "node_at st p t \<Longrightarrow> (p = 0 \<longleftrightarrow> t = None)"
  by (cases t) (auto elim: node_at.elims)

lemma path_length_m_refines:
  "node_at st p t \<Longrightarrow> load_behavior smp st = Some (b, st) \<Longrightarrow> levels t < k \<Longrightarrow>
   path_length_m k p smp d st = Some (path_length t b d, st)"
proof (induction k arbitrary: p t d)
  case 0
  then show ?case by simp
next
  case (Suc k)
  show ?case
  proof (cases t)
    case None
    with Suc.prems show ?thesis by simp
  next
    case (Some nd)
    obtain lf a v l r sz where nd: "nd = IsolationNode lf a v l r sz" by (cases nd)
    from Suc.prems(1) Some nd obtain c where p: "p \<noteq> 0" and c: "node_heap st p = Some c"
      and f: "is_leaf_c c = lf" "split_attribute_c c = a" "split_value_c c = v" "size_c c = sz"
      and ch: "node_at st (left_c c) l" "node_at st (right_c c) r"
      by (auto split: option.splits)
    from p c have ld: "load_node p st = Some (c, st)" by (simp add: load_node_Some)
    from Suc.prems(3) Some nd have lv: "levels l < k" "levels r < k" by simp_all
    from node_at_null[OF ch(1)] node_at_null[OF ch(2)]
    have z: "left_c c \<noteq> 0 \<longleftrightarrow> l \<noteq> None" "right_c c \<noteq> 0 \<longleftrightarrow> r \<noteq> None" by simp_all
    note il = Suc.IH[OF ch(1) Suc.prems(2) lv(1), of "d + 1"]
    note ir = Suc.IH[OF ch(2) Suc.prems(2) lv(2), of "d + 1"]
    show ?thesis
      using p ld f z il ir Suc.prems(2)
      by (cases l; cases r) (simp_all add: Some nd Let_def)
  qed
qed

lemma levels_le_deepest: "tr \<in> set trs \<Longrightarrow> levels (root tr) \<le> deepest trs"
  by (induction trs) auto

lemma score_loop_refines:
  assumes fa: "forest_at st f forest" and b: "load_behavior smp st = Some (b, st)"
    and len: "nat (num_trees forest) \<le> length (trees forest)"
  shows "t \<le> nat (num_trees forest) \<Longrightarrow>
     nat (num_trees forest) - t + deepest (trees forest) < k \<Longrightarrow>
     score_loop k f smp t avg st =
       Some (avg + sum_list (map (\<lambda>i. path_length (root (trees forest ! i)) b 0)
                               [t..<nat (num_trees forest)]), st)"
proof (induction k arbitrary: t avg)
  case 0
  then show ?case by simp
next
  case (Suc k)
  from fa obtain fc where f0: "f \<noteq> 0" and fc: "forest_heap st f = Some fc"
    and nt: "num_trees_c fc = num_trees forest"
    and la: "list_all2 (tree_at st) (trees_c fc) (trees forest)"
    by (auto simp: forest_at_def split: option.splits)
  from f0 fc have lf: "load_forest f st = Some (fc, st)" by (simp add: load_forest_Some)
  show ?case
  proof (cases "t < nat (num_trees forest)")
    case False
    with Suc.prems(1) have "t = nat (num_trees forest)" by simp
    then show ?thesis using lf nt by simp
  next
    case True
    then have c1: "int t < num_trees_c fc" using nt by simp
    from la have ll: "length (trees_c fc) = length (trees forest)" by (rule list_all2_lengthD)
    from True len ll have c2: "t < length (trees_c fc)" by simp
    from list_all2_nthD[OF la c2] have ta: "tree_at st (trees_c fc ! t) (trees forest ! t)" .
    then obtain tc where q0: "trees_c fc ! t \<noteq> 0" and tc: "tree_heap st (trees_c fc ! t) = Some tc"
      and na: "node_at st (root_c tc) (root (trees forest ! t))"
      by (auto simp: tree_at_def split: option.splits)
    from q0 tc have lt: "load_tree (trees_c fc ! t) st = Some (tc, st)"
      by (simp add: load_tree_Some)
    from c2 ll have "trees forest ! t \<in> set (trees forest)" by simp
    from levels_le_deepest[OF this] Suc.prems(2) True
    have lv: "levels (root (trees forest ! t)) < k" by simp
    note pl = path_length_m_refines[OF na b lv, of 0]
    from True have t1: "Suc t \<le> nat (num_trees forest)" by simp
    from Suc.prems(2) True have t2: "nat (num_trees forest) - Suc t + deepest (trees forest) < k"
      by simp
    note ih = Suc.IH[OF t1 t2, of "avg + path_length (root (trees forest ! t)) b 0"]
    from True have up: "[t..<nat (num_trees forest)] = t # [Suc t..<nat (num_trees forest)]"
      by (simp add: upt_conv_Cons)
    show ?thesis using lf c1 c2 lt pl ih by (simp add: up add.assoc)
  qed
qed

lemma anomaly_score_m_refines:
  assumes fa: "forest_at st f forest" and b: "load_behavior smp st = Some (b, st)"
    and len: "nat (num_trees forest) \<le> length (trees forest)"
    and k: "nat (num_trees forest) + deepest (trees forest) < k"
  shows "anomaly_score_m k f smp st = Some (anomaly_score forest b, st)"
proof -
  from fa obtain fc where f0: "f \<noteq> 0" and fc: "forest_heap st f = Some fc"
    and nt: "num_trees_c fc = num_trees forest"
    and ss: "subsample_size_c fc = subsample_size forest"
    by (auto simp: forest_at_def split: option.splits)
  from f0 fc have lf: "load_forest f st = Some (fc, st)" by (simp add: load_forest_Some)
  from k have k': "nat (num_trees forest) - 0 + deepest (trees forest) < k" by simp
  note sl = score_loop_refines[OF fa b len le0 k', of 0]
  have pure: "fold (\<lambda>t acc. acc + path_length (root (trees forest ! t)) b 0)
                 [0..<nat (num_trees forest)] 0
      = sum_list (map (\<lambda>i. path_length (root (trees forest ! i)) b 0)
                               [0..<nat (num_trees forest)])"
    by (simp add: fold_add_sum)
  show ?thesis
    unfolding anomaly_score_m_def anomaly_score_def pure
    using sl lf nt ss by (simp add: Let_def)
qed

lemma pair_machine_holds_forest: "forest_at pair_machine 1 pair_forest"
  by code_simp

lemma pair_forest_trained:
  "fst (train_isolation_forest count_stream two_behaviors 2 0) = pair_forest"
  by (simp add: trained_pair_forest pair_forest_def)

lemma pair_forest_score: "anomaly_score pair_forest (uniform_behavior 1) = 2"
  by (simp add: pair_forest_def anomaly_score_sum path_length_split_pair c_factor_two)

section \<open>The claims\<close>

text \<open>
  C1. Claimed: \<open>c_factor n\<close> is \<open>0\<close> for \<open>n \<le> 1\<close> and
  \<open>2 * (ln (n-1) + 0.5772156649) - 2*(n-1)/n\<close> for \<open>n \<ge> 2\<close>, in both programs.
  At \<open>n = 2\<close> the full detector returns \<open>-1\<close>: its \<open>harmonic_number\<close> answers \<open>0\<close> for
  the argument \<open>1\<close>, where the formula has \<open>ln 1 + 0.5772156649\<close>. The formula, and the
  \<open>c_factor\<close> of \<open>new.c\<close>, give \<open>0.1544313298\<close> there.
\<close>

theorem c_factor_at_two:
  "c_factor 2 = - 1 \<and> spec_c_factor 2 = 0.1544313298 \<and> new_c_factor 2 = spec_c_factor 2"
  by (simp add: c_factor_def harmonic_number_def spec_c_factor_def new_c_factor_def)

text \<open>
  C2. Claimed: the score of any vector against a trained forest with subsample size above 1
  lies in \<open>[0, 1]\<close>. Training the full detector on two processes, with a generator that
  returns 0, 1, 2, ..., gives subsample size 2 and ten trees that each split the two
  samples apart; every path length is then 1, the normalisation constant is
  \<open>c_factor 2 = -1\<close>, and the score of the first training process is \<open>2\<close>.
\<close>

theorem anomaly_score_exceeds_one:
  "subsample_size (fst (train_isolation_forest count_stream two_behaviors 2 0)) = 2
   \<and> anomaly_score (fst (train_isolation_forest count_stream two_behaviors 2 0))
        (uniform_behavior 1) = 2"
  by (simp add: trained_pair_forest anomaly_score_sum path_length_split_pair c_factor_two)

text \<open>
  C3. A call of the tree builder returns a leaf exactly when the depth has reached the
  limit, or at most one sample is left, or all samples agree on the attribute that the
  generator selects at this call; a node made below the limit from two or more samples
  stores that attribute (in \<open>new.c\<close> only when it is not a leaf). The node returned stores
  the number of samples of the call, and the sizes stored in the leaves add up to it.
  Throughout the tree that a call on \<open>n \<ge> 0\<close> samples returns, when the samples are sent
  down by the attribute and value stored in each node, every node, and so every leaf,
  stores the number of samples that reach it, every leaf meets the criterion and no
  other node does, and a child is absent exactly when no sample is sent to it. Both
  builders.
\<close>

theorem build_leaf_criterion:
  "(is_leaf (fst (build_isolation_tree rnd data indices n cd md s)) \<longleftrightarrow>
      md \<le> cd \<or> n \<le> 1 \<or>
      (\<forall>i < nat n. \<forall>j < nat n.
          freq_at data indices (fst (random_int rnd 0 (MAX_SYSCALLS - 1) s)) i
        = freq_at data indices (fst (random_int rnd 0 (MAX_SYSCALLS - 1) s)) j))
   \<and> node_size (fst (build_isolation_tree rnd data indices n cd md s)) = n
   \<and> leaf_total (Some (fst (build_isolation_tree rnd data indices n cd md s))) = n
   \<and> (cd < md \<and> 2 \<le> n \<longrightarrow>
        split_attribute (fst (build_isolation_tree rnd data indices n cd md s))
          = fst (random_int rnd 0 (MAX_SYSCALLS - 1) s))
   \<and> (0 \<le> n \<longrightarrow>
        routed data md cd (samples_read indices n)
          (Some (fst (build_isolation_tree rnd data indices n cd md s))))
   \<and> (is_leaf_n (fst (build_tree rnd' pdata idx m depth s')) \<longleftrightarrow>
      MAX_DEPTH \<le> depth \<or> m \<le> 1 \<or>
      (\<forall>i < nat m. \<forall>j < nat m.
          freq_idx pdata idx (fst (rand rnd' s') mod MAX_SYSCALLS) i
        = freq_idx pdata idx (fst (rand rnd' s') mod MAX_SYSCALLS) j))
   \<and> size_n (fst (build_tree rnd' pdata idx m depth s')) = m
   \<and> leaf_total_n (Some (fst (build_tree rnd' pdata idx m depth s'))) = m
   \<and> (\<not> is_leaf_n (fst (build_tree rnd' pdata idx m depth s')) \<longrightarrow>
        split_attr (fst (build_tree rnd' pdata idx m depth s'))
          = fst (rand rnd' s') mod MAX_SYSCALLS)
   \<and> (0 \<le> m \<longrightarrow>
        routed_n pdata depth (samples_read idx m)
          (Some (fst (build_tree rnd' pdata idx m depth s'))))"
proof -
  have a: "is_leaf (fst (build_isolation_tree rnd data indices n cd md s)) \<longleftrightarrow>
      md \<le> cd \<or> n \<le> 1 \<or>
      (\<forall>i < nat n. \<forall>j < nat n.
          freq_at data indices (fst (random_int rnd 0 (MAX_SYSCALLS - 1) s)) i
        = freq_at data indices (fst (random_int rnd 0 (MAX_SYSCALLS - 1) s)) j)"
  proof (cases rule: build_isolation_tree_step[of md cd n rnd data indices s])
    case stop
    then show ?thesis by auto
  next
    case (uniform attr s1 mn)
    from uniform(1,2) have k: "0 < nat n" by simp
    from uniform(4) have "fold (mm_step (freq_at data indices attr)) [1..<nat n]
        (freq_at data indices attr 0, freq_at data indices attr 0) = (mn, mn)"
      by (simp add: min_max_loop_fold)
    from mm_scan_equal_iff[OF this k]
    have eq: "\<forall>i < nat n. \<forall>j < nat n.
                freq_at data indices attr i = freq_at data indices attr j"
      by blast
    have at: "fst (random_int rnd 0 (MAX_SYSCALLS - 1) s) = attr" using uniform(3) by simp
    have "is_leaf (fst (build_isolation_tree rnd data indices n cd md s))"
      using uniform(5) by simp
    with eq show ?thesis unfolding at by blast
  next
    case (internal attr s1 mn mx sv li ri s2 s3 s4)
    from internal(1,2) have k: "0 < nat n" by simp
    from internal(4) have "fold (mm_step (freq_at data indices attr)) [1..<nat n]
        (freq_at data indices attr 0, freq_at data indices attr 0) = (mn, mx)"
      by (simp add: min_max_loop_fold)
    from mm_scan_equal_iff[OF this k] internal(5)
    have ne: "\<not> (\<forall>i < nat n. \<forall>j < nat n.
                freq_at data indices attr i = freq_at data indices attr j)"
      by blast
    have at: "fst (random_int rnd 0 (MAX_SYSCALLS - 1) s) = attr" using internal(3) by simp
    have "\<not> is_leaf (fst (build_isolation_tree rnd data indices n cd md s))"
      using internal(11) by simp
    with ne internal(1,2) show ?thesis unfolding at by auto
  qed
  have b: "node_size (fst (build_isolation_tree rnd data indices n cd md s)) = n"
    by (cases rule: build_isolation_tree_step[of md cd n rnd data indices s]) simp_all
  have c: "is_leaf_n (fst (build_tree rnd' pdata idx m depth s')) \<longleftrightarrow>
      MAX_DEPTH \<le> depth \<or> m \<le> 1 \<or>
      (\<forall>i < nat m. \<forall>j < nat m.
          freq_idx pdata idx (fst (rand rnd' s') mod MAX_SYSCALLS) i
        = freq_idx pdata idx (fst (rand rnd' s') mod MAX_SYSCALLS) j)"
  proof (cases rule: build_tree_step[of depth m rnd' pdata idx s'])
    case stop
    then show ?thesis by auto
  next
    case (uniform attr mn)
    from uniform(1,2) have k: "0 < nat m" by simp
    from uniform(4) have "fold (mm_step (freq_idx pdata idx attr)) [1..<nat m]
        (freq_idx pdata idx attr 0, freq_idx pdata idx attr 0) = (mn, mn)"
      by (simp add: min_max_scan_fold)
    from mm_scan_equal_iff[OF this k]
    have eq: "\<forall>i < nat m. \<forall>j < nat m.
                freq_idx pdata idx attr i = freq_idx pdata idx attr j"
      by blast
    have "is_leaf_n (fst (build_tree rnd' pdata idx m depth s'))"
      using uniform(5) by simp
    with eq show ?thesis unfolding uniform(3)[symmetric] by blast
  next
    case (internal attr mn mx sv li ri s3 s4)
    from internal(1,2) have k: "0 < nat m" by simp
    from internal(4) have "fold (mm_step (freq_idx pdata idx attr)) [1..<nat m]
        (freq_idx pdata idx attr 0, freq_idx pdata idx attr 0) = (mn, mx)"
      by (simp add: min_max_scan_fold)
    from mm_scan_equal_iff[OF this k] internal(5)
    have ne: "\<not> (\<forall>i < nat m. \<forall>j < nat m.
                freq_idx pdata idx attr i = freq_idx pdata idx attr j)"
      by blast
    have "\<not> is_leaf_n (fst (build_tree rnd' pdata idx m depth s'))"
      using internal(11) by simp
    with ne internal(1,2) show ?thesis unfolding internal(3)[symmetric] by auto
  qed
  have d: "size_n (fst (build_tree rnd' pdata idx m depth s')) = m"
    by (cases rule: build_tree_step[of depth m rnd' pdata idx s']) simp_all
  have e: "cd < md \<and> 2 \<le> n \<longrightarrow>
        split_attribute (fst (build_isolation_tree rnd data indices n cd md s))
          = fst (random_int rnd 0 (MAX_SYSCALLS - 1) s)"
    by (cases rule: build_isolation_tree_step[of md cd n rnd data indices s]) auto
  have f: "\<not> is_leaf_n (fst (build_tree rnd' pdata idx m depth s')) \<longrightarrow>
        split_attr (fst (build_tree rnd' pdata idx m depth s'))
          = fst (rand rnd' s') mod MAX_SYSCALLS"
    by (cases rule: build_tree_step[of depth m rnd' pdata idx s']) auto
  have g: "0 \<le> n \<longrightarrow>
        routed data md cd (samples_read indices n)
          (Some (fst (build_isolation_tree rnd data indices n cd md s)))"
    using build_isolation_tree_routed[of n data md cd indices rnd s] by blast
  have h: "0 \<le> m \<longrightarrow>
        routed_n pdata depth (samples_read idx m)
          (Some (fst (build_tree rnd' pdata idx m depth s')))"
    using build_tree_routed[of m pdata depth idx rnd' s'] by blast
  from a b c d e f g h build_isolation_tree_leaf_total[of rnd data indices n cd md s]
    build_tree_leaf_total[of rnd' pdata idx m depth s']
  show ?thesis by blast
qed

theorem build_leaf_criterion_witness:
  "\<not> is_leaf (fst (build_isolation_tree count_stream two_behaviors [0, 1] 2 0 10 0))
   \<and> \<not> ((10::int) \<le> 0 \<or> (2::int) \<le> 1 \<or>
      (\<forall>i < nat 2. \<forall>j < nat 2.
          freq_at two_behaviors [0, 1] (fst (random_int count_stream 0 (MAX_SYSCALLS - 1) 0)) i
        = freq_at two_behaviors [0, 1] (fst (random_int count_stream 0 (MAX_SYSCALLS - 1) 0)) j))
   \<and> node_size (fst (build_isolation_tree count_stream two_behaviors [0, 1] 2 0 10 0)) = 2
   \<and> (0::int) \<le> 2
   \<and> routed two_behaviors 10 0 [0, 1]
        (Some (fst (build_isolation_tree count_stream two_behaviors [0, 1] 2 0 10 0)))
   \<and> \<not> is_leaf_n (fst (build_tree count_stream two_processes [0, 1] 2 0 0))
   \<and> \<not> (MAX_DEPTH \<le> 0 \<or> (2::int) \<le> 1 \<or>
      (\<forall>i < nat 2. \<forall>j < nat 2.
          freq_idx two_processes [0, 1] (fst (rand count_stream 0) mod MAX_SYSCALLS) i
        = freq_idx two_processes [0, 1] (fst (rand count_stream 0) mod MAX_SYSCALLS) j))
   \<and> size_n (fst (build_tree count_stream two_processes [0, 1] 2 0 0)) = 2
   \<and> split_attr (fst (build_tree count_stream two_processes [0, 1] 2 0 0))
        = fst (rand count_stream 0) mod MAX_SYSCALLS
   \<and> routed_n two_processes 0 [0, 1]
        (Some (fst (build_tree count_stream two_processes [0, 1] 2 0 0)))"
proof -
  have a: "\<not> is_leaf (fst (build_isolation_tree count_stream two_behaviors [0, 1] 2 0 10 0))"
    by code_simp
  have b: "\<not> is_leaf_n (fst (build_tree count_stream two_processes [0, 1] 2 0 0))"
    by code_simp
  have z: "(0::int) \<le> 2" by simp
  have sr: "samples_read [0, 1] 2 = [0, 1]" by code_simp
  note t = build_leaf_criterion[of count_stream two_behaviors "[0, 1]" 2 0 10 0
      count_stream two_processes "[0, 1]" 2 0 0]
  from t z have "routed two_behaviors 10 0 (samples_read [0, 1] 2)
        (Some (fst (build_isolation_tree count_stream two_behaviors [0, 1] 2 0 10 0)))"
    by blast
  then have r1: "routed two_behaviors 10 0 [0, 1]
        (Some (fst (build_isolation_tree count_stream two_behaviors [0, 1] 2 0 10 0)))"
    by (simp only: sr)
  from t z have "routed_n two_processes 0 (samples_read [0, 1] 2)
        (Some (fst (build_tree count_stream two_processes [0, 1] 2 0 0)))"
    by blast
  then have r2: "routed_n two_processes 0 [0, 1]
        (Some (fst (build_tree count_stream two_processes [0, 1] 2 0 0)))"
    by (simp only: sr)
  from a b z r1 r2 t show ?thesis by blast
qed

text \<open>
  C4, as claimed: an absent node yields \<open>depth + c_factor(0)\<close>, and an internal node whose
  comparison selects an absent child returns the current depth. The second half fails in
  both programs. The tree that \<open>build_isolation_tree\<close> makes from two processes when the
  generator returns 0 has no left child at its root; for a process whose counter lies below
  the split value the comparison selects that absent child, and \<open>path_length\<close> from depth 0
  walks on through the right children and returns 9. On the same tree built by
  \<open>build_tree\<close>, \<open>get_path\<close> returns 1.
\<close>

theorem absent_left_child_not_terminal:
  "\<not> is_leaf (fst (build_isolation_tree zero_stream two_behaviors [0, 1] 2 0 10 0))
   \<and> left (fst (build_isolation_tree zero_stream two_behaviors [0, 1] 2 0 10 0)) = None
   \<and> syscall_freq (uniform_behavior 0)
         ! nat (split_attribute (fst (build_isolation_tree zero_stream two_behaviors [0, 1] 2 0 10 0)))
       < split_value (fst (build_isolation_tree zero_stream two_behaviors [0, 1] 2 0 10 0))
   \<and> path_length (Some (fst (build_isolation_tree zero_stream two_behaviors [0, 1] 2 0 10 0)))
         (uniform_behavior 0) 0 = 9
   \<and> \<not> is_leaf_n (fst (build_tree zero_stream two_processes [0, 1] 2 0 0))
   \<and> left_n (fst (build_tree zero_stream two_processes [0, 1] 2 0 0)) = None
   \<and> freq (uniform_process 0)
         ! nat (split_attr (fst (build_tree zero_stream two_processes [0, 1] 2 0 0)))
       < split_val (fst (build_tree zero_stream two_processes [0, 1] 2 0 0))
   \<and> get_path (Some (fst (build_tree zero_stream two_processes [0, 1] 2 0 0)))
         (uniform_process 0) 0 = 1"
proof -
  have "\<not> is_leaf (fst (build_isolation_tree zero_stream two_behaviors [0, 1] 2 0 10 0))
   \<and> left (fst (build_isolation_tree zero_stream two_behaviors [0, 1] 2 0 10 0)) = None
   \<and> syscall_freq (uniform_behavior 0)
         ! nat (split_attribute (fst (build_isolation_tree zero_stream two_behaviors [0, 1] 2 0 10 0)))
       < split_value (fst (build_isolation_tree zero_stream two_behaviors [0, 1] 2 0 10 0))"
    by code_simp
  moreover have "path_length (Some (fst (build_isolation_tree zero_stream two_behaviors [0, 1] 2 0 10 0)))
         (uniform_behavior 0) 0 = 9"
    by (simp add: chain_built path_length_right_chain c_factor_two)
  moreover have "\<not> is_leaf_n (fst (build_tree zero_stream two_processes [0, 1] 2 0 0))
   \<and> left_n (fst (build_tree zero_stream two_processes [0, 1] 2 0 0)) = None
   \<and> freq (uniform_process 0)
         ! nat (split_attr (fst (build_tree zero_stream two_processes [0, 1] 2 0 0)))
       < split_val (fst (build_tree zero_stream two_processes [0, 1] 2 0 0))"
    by code_simp
  moreover have "get_path (Some (fst (build_tree zero_stream two_processes [0, 1] 2 0 0)))
         (uniform_process 0) 0 = 1"
    by (simp add: chain_built_n get_path_right_chain_n)
  ultimately show ?thesis by blast
qed

text \<open>
  C4, amended. An absent node yields \<open>depth + c_factor(0)\<close>, which is \<open>depth\<close>, in both
  programs. In \<open>path_length\<close> an internal node without a right child returns the current
  depth unless the comparison selects a left child that is present; an internal node
  with a right child and no left child continues in the right child at \<open>depth + 1\<close>,
  whatever the comparison says. In \<open>get_path\<close> an internal node whose selected child is
  absent returns \<open>depth + 1\<close>.
\<close>

theorem path_length_absent_child:
  "path_length None sample d = real_of_int d + c_factor 0
   \<and> path_length None sample d = real_of_int d
   \<and> path_length (Some (IsolationNode False a v l None sz)) sample d =
        (if syscall_freq sample ! nat a < v \<and> l \<noteq> None
         then path_length l sample (d + 1) else real_of_int d)
   \<and> path_length (Some (IsolationNode False a v None (Some r) sz)) sample d =
        path_length (Some r) sample (d + 1)
   \<and> get_path None p d = real_of_int d + new_c_factor 0
   \<and> get_path None p d = real_of_int d
   \<and> get_path (Some (Node False a v sz None None)) p d = real_of_int d + 1
   \<and> get_path (Some (Node False a v sz None (Some r'))) p d =
        (if freq p ! nat a < v then real_of_int d + 1 else get_path (Some r') p (d + 1))
   \<and> get_path (Some (Node False a v sz (Some l') None)) p d =
        (if freq p ! nat a < v then get_path (Some l') p (d + 1) else real_of_int d + 1)"
  by (simp add: c_factor_low new_c_factor_low)

theorem path_length_absent_child_witness:
  "path_length (Some (IsolationNode False 0 1 None None 2)) (uniform_behavior 0) 0 = 0
   \<and> path_length (Some (IsolationNode False 0 1 None (Some (right_chain 0)) 2))
        (uniform_behavior 0) 0 = 0
   \<and> get_path (Some (Node False 0 1 2 None (Some (right_chain_n 0)))) (uniform_process 0) 0 = 1"
  using path_length_absent_child[of "uniform_behavior 0" 0 0 1 None 2 "right_chain 0"
      "uniform_process 0" "right_chain_n 0" "right_chain_n 0"]
  by (simp add: c_factor_two uniform_process_def)

text \<open>
  C5, as claimed: every internal node of a built tree has both children. The trees that
  the two builders make from two processes when the generator returns 0 have a root that
  is not a leaf and has no left child: the split value drawn is the minimum, so no sample
  lies below it.
\<close>

theorem internal_node_without_left_child:
  "\<not> is_leaf (fst (build_isolation_tree zero_stream two_behaviors [0, 1] 2 0 10 0))
   \<and> left (fst (build_isolation_tree zero_stream two_behaviors [0, 1] 2 0 10 0)) = None
   \<and> \<not> is_leaf_n (fst (build_tree zero_stream two_processes [0, 1] 2 0 0))
   \<and> left_n (fst (build_tree zero_stream two_processes [0, 1] 2 0 0)) = None"
  by code_simp

text \<open>
  C5, amended. A node returned by a call of either builder that is not a leaf has its
  right child, and it has its left child exactly when some sample of the call lies
  strictly below the split value.
\<close>

theorem internal_node_children:
  "(\<not> is_leaf (fst (build_isolation_tree rnd data indices n cd md s)) \<longrightarrow>
      right (fst (build_isolation_tree rnd data indices n cd md s)) \<noteq> None
      \<and> (left (fst (build_isolation_tree rnd data indices n cd md s)) \<noteq> None \<longleftrightarrow>
           (\<exists>i < nat n.
               freq_at data indices
                 (split_attribute (fst (build_isolation_tree rnd data indices n cd md s))) i
             < split_value (fst (build_isolation_tree rnd data indices n cd md s)))))
   \<and> (\<not> is_leaf_n (fst (build_tree rnd' pdata idx m depth s')) \<longrightarrow>
      right_n (fst (build_tree rnd' pdata idx m depth s')) \<noteq> None
      \<and> (left_n (fst (build_tree rnd' pdata idx m depth s')) \<noteq> None \<longleftrightarrow>
           (\<exists>i < nat m.
               freq_idx pdata idx (split_attr (fst (build_tree rnd' pdata idx m depth s'))) i
             < split_val (fst (build_tree rnd' pdata idx m depth s')))))"
proof -
  have a: "\<not> is_leaf (fst (build_isolation_tree rnd data indices n cd md s)) \<longrightarrow>
      right (fst (build_isolation_tree rnd data indices n cd md s)) \<noteq> None
      \<and> (left (fst (build_isolation_tree rnd data indices n cd md s)) \<noteq> None \<longleftrightarrow>
           (\<exists>i < nat n.
               freq_at data indices
                 (split_attribute (fst (build_isolation_tree rnd data indices n cd md s))) i
             < split_value (fst (build_isolation_tree rnd data indices n cd md s))))"
  proof (cases rule: build_isolation_tree_step[of md cd n rnd data indices s])
    case stop
    then show ?thesis by simp
  next
    case (uniform attr s1 mn)
    then show ?thesis by simp
  next
    case (internal attr s1 mn mx sv li ri s2 s3 s4)
    from pt_scan_facts(1)[OF internal(9)[unfolded partition_loop_fold]]
    have "li \<noteq> [] \<longleftrightarrow> (\<exists>i < nat n. freq_at data indices attr i < sv)" by blast
    then show ?thesis by (auto simp: internal(11))
  qed
  have b: "\<not> is_leaf_n (fst (build_tree rnd' pdata idx m depth s')) \<longrightarrow>
      right_n (fst (build_tree rnd' pdata idx m depth s')) \<noteq> None
      \<and> (left_n (fst (build_tree rnd' pdata idx m depth s')) \<noteq> None \<longleftrightarrow>
           (\<exists>i < nat m.
               freq_idx pdata idx (split_attr (fst (build_tree rnd' pdata idx m depth s'))) i
             < split_val (fst (build_tree rnd' pdata idx m depth s'))))"
  proof (cases rule: build_tree_step[of depth m rnd' pdata idx s'])
    case stop
    then show ?thesis by simp
  next
    case (uniform attr mn)
    then show ?thesis by simp
  next
    case (internal attr mn mx sv li ri s3 s4)
    from pt_scan_facts(1)[OF internal(9)[unfolded split_scan_fold]]
    have "li \<noteq> [] \<longleftrightarrow> (\<exists>i < nat m. freq_idx pdata idx attr i < sv)" by blast
    then show ?thesis by (auto simp: internal(11))
  qed
  from a b show ?thesis by blast
qed

theorem internal_node_children_witness:
  "\<not> is_leaf (fst (build_isolation_tree count_stream two_behaviors [0, 1] 2 0 10 0))
   \<and> right (fst (build_isolation_tree count_stream two_behaviors [0, 1] 2 0 10 0)) \<noteq> None
   \<and> \<not> is_leaf_n (fst (build_tree zero_stream two_processes [0, 1] 2 0 0))
   \<and> right_n (fst (build_tree zero_stream two_processes [0, 1] 2 0 0)) \<noteq> None
   \<and> \<not> (\<exists>i < nat 2.
               freq_idx two_processes [0, 1]
                 (split_attr (fst (build_tree zero_stream two_processes [0, 1] 2 0 0))) i
             < split_val (fst (build_tree zero_stream two_processes [0, 1] 2 0 0)))"
proof -
  have a: "\<not> is_leaf (fst (build_isolation_tree count_stream two_behaviors [0, 1] 2 0 10 0))"
    by code_simp
  have b: "\<not> is_leaf_n (fst (build_tree zero_stream two_processes [0, 1] 2 0 0))
      \<and> left_n (fst (build_tree zero_stream two_processes [0, 1] 2 0 0)) = None"
    by code_simp
  from a b internal_node_children[of count_stream two_behaviors "[0, 1]" 2 0 10 0
      zero_stream two_processes "[0, 1]" 2 0 0]
  show ?thesis by blast
qed

text \<open>
  C6, as claimed: training on an empty training set fails with InvalidInput before any
  tree is built. \<open>train_isolation_forest\<close> has no check of its arguments and no way to
  report an error: with \<open>n = 0\<close> the subsample size is clamped to 0, no index is drawn, and
  each of the ten calls of \<open>build_isolation_tree\<close> returns a leaf of size 0. The call
  returns a complete forest.
\<close>

theorem train_on_empty_set_returns_forest:
  "train_isolation_forest zero_stream [] 0 0 =
     (\<lparr>trees = replicate 10 (leaf_tree 0), num_trees = 10, subsample_size = 0\<rparr>, 0)
   \<and> length (trees (fst (train_isolation_forest zero_stream [] 0 0))) = 10"
  by (simp add: train_empty)

text \<open>
  C6, amended. Training on an empty training set does not fail: whatever the generator,
  it returns a forest of \<open>NUM_TREES = 10\<close> trees, each a single leaf of size 0, with
  subsample size 0, and draws no random number.
\<close>

theorem train_isolation_forest_empty:
  "train_isolation_forest rnd training_data 0 s =
     (\<lparr>trees = replicate (nat NUM_TREES) (leaf_tree 0), num_trees = NUM_TREES,
       subsample_size = 0\<rparr>, s)"
  by (simp add: train_empty NUM_TREES_def)

text \<open>
  C7. In \<open>anomaly_score\<close> the division by the normalisation constant is guarded: when
  \<open>c_factor\<close> of the subsample size is 0 the result is 0.5. That happens exactly when the
  subsample size is at most 1. The score computed in \<open>main\<close> of \<open>new.c\<close> divides by
  \<open>c_factor(SUBSAMPLE_SIZE)\<close> with the constant 8, which is not 0.
\<close>

theorem anomaly_score_fallback:
  "(c_factor (subsample_size forest) = 0 \<longrightarrow> anomaly_score forest sample = 1 / 2)
   \<and> (c_factor (subsample_size forest) = 0 \<longleftrightarrow> subsample_size forest \<le> 1)
   \<and> new_c_factor SUBSAMPLE_SIZE \<noteq> 0"
proof -
  have "c_factor (subsample_size forest) = 0 \<longrightarrow> anomaly_score forest sample = 1 / 2"
    by (simp add: anomaly_score_def Let_def)
  moreover have "new_c_factor SUBSAMPLE_SIZE \<noteq> 0"
    using new_c_factor_subsample by simp
  ultimately show ?thesis using c_factor_zero_iff[of "subsample_size forest"] by blast
qed

theorem anomaly_score_fallback_witness:
  "c_factor (subsample_size (fst (train_isolation_forest zero_stream [uniform_behavior 1] 1 0))) = 0
   \<and> anomaly_score (fst (train_isolation_forest zero_stream [uniform_behavior 1] 1 0))
        (uniform_behavior 5) = 1 / 2"
proof -
  have "subsample_size (fst (train_isolation_forest zero_stream [uniform_behavior 1] 1 0)) = 1"
    by code_simp
  then have "c_factor (subsample_size
      (fst (train_isolation_forest zero_stream [uniform_behavior 1] 1 0))) = 0"
    by (simp add: c_factor_low)
  with anomaly_score_fallback[of
      "fst (train_isolation_forest zero_stream [uniform_behavior 1] 1 0)" "uniform_behavior 5"]
  show ?thesis by blast
qed

text \<open>
  C8. Scoring on the program's memory. Whatever the memory holds and however many steps
  are allowed, a call of \<open>anomaly_score\<close> that returns leaves the whole state as it was:
  every node, tree and forest object, every process record, and the generator. A second
  call on the same arguments therefore returns the same score. The same holds for
  \<open>path_length\<close>. And when the memory holds a forest, the call does return once it is
  allowed more steps than the number of trees plus the levels of the deepest tree, and
  its result is the function \<open>anomaly_score\<close> of that forest and the process record.
\<close>

theorem scoring_leaves_state_unchanged:
  "(anomaly_score_m k forest sample st = Some (r, st') \<longrightarrow>
      st' = st \<and> anomaly_score_m k forest sample st' = Some (r, st'))
   \<and> (path_length_m k node sample d st = Some (r, st') \<longrightarrow> st' = st)
   \<and> (forest_at st forest F \<and> sample \<noteq> 0 \<and> behavior_heap st sample = Some b
       \<and> nat (num_trees F) \<le> length (trees F)
       \<and> nat (num_trees F) + deepest (trees F) < k \<longrightarrow>
      anomaly_score_m k forest sample st = Some (anomaly_score F b, st))"
proof -
  have a: "anomaly_score_m k forest sample st = Some (r, st') \<longrightarrow>
      st' = st \<and> anomaly_score_m k forest sample st' = Some (r, st')"
  proof
    assume c: "anomaly_score_m k forest sample st = Some (r, st')"
    from anomaly_score_m_state[OF c] have e: "st' = st" .
    with c show "st' = st \<and> anomaly_score_m k forest sample st' = Some (r, st')" by simp
  qed
  have b: "path_length_m k node sample d st = Some (r, st') \<longrightarrow> st' = st"
    using path_length_m_state[of k node sample d st r st'] by blast
  have c: "forest_at st forest F \<and> sample \<noteq> 0 \<and> behavior_heap st sample = Some b
       \<and> nat (num_trees F) \<le> length (trees F)
       \<and> nat (num_trees F) + deepest (trees F) < k \<longrightarrow>
      anomaly_score_m k forest sample st = Some (anomaly_score F b, st)"
  proof
    assume h: "forest_at st forest F \<and> sample \<noteq> 0 \<and> behavior_heap st sample = Some b
       \<and> nat (num_trees F) \<le> length (trees F)
       \<and> nat (num_trees F) + deepest (trees F) < k"
    then have lb: "load_behavior sample st = Some (b, st)" by (simp add: load_behavior_Some)
    from h anomaly_score_m_refines[OF _ lb, of forest F k]
    show "anomaly_score_m k forest sample st = Some (anomaly_score F b, st)" by blast
  qed
  from a b c show ?thesis by blast
qed

theorem scoring_leaves_state_unchanged_witness:
  "forest_at pair_machine 1 (fst (train_isolation_forest count_stream two_behaviors 2 0))
   \<and> behavior_heap pair_machine 1 = Some (uniform_behavior 1)
   \<and> anomaly_score_m 20 1 1 pair_machine = Some (2, pair_machine)"
proof -
  have f: "forest_at pair_machine 1 pair_forest" by (rule pair_machine_holds_forest)
  have s: "(1::nat) \<noteq> 0" by simp
  have b: "behavior_heap pair_machine 1 = Some (uniform_behavior 1)"
    by (simp add: pair_machine_def)
  have n: "nat (num_trees pair_forest) \<le> length (trees pair_forest)"
    by (simp add: pair_forest_def)
  have k: "nat (num_trees pair_forest) + deepest (trees pair_forest) < 20"
    by (simp add: pair_forest_def split_pair_def)
  from f s b n k
    scoring_leaves_state_unchanged[where k = 20 and forest = 1 and sample = 1
      and st = pair_machine and F = pair_forest and b = "uniform_behavior 1"]
  have "anomaly_score_m 20 1 1 pair_machine
      = Some (anomaly_score pair_forest (uniform_behavior 1), pair_machine)"
    by blast
  with f b show ?thesis by (simp add: pair_forest_score pair_forest_trained)
qed

text \<open>
  C9. In every tree made by either builder, every node that is not a leaf has a right
  child; and at a call that returns such a node the split value lies between the minimum
  and the maximum of the selected attribute over the samples of the call.
\<close>

theorem internal_nodes_have_right_child:
  "right_present (Some (fst (build_isolation_tree rnd data indices n cd md s)))
   \<and> (\<not> is_leaf (fst (build_isolation_tree rnd data indices n cd md s)) \<longrightarrow>
        fst (min_max_loop data indices
               (split_attribute (fst (build_isolation_tree rnd data indices n cd md s))) n)
          \<le> split_value (fst (build_isolation_tree rnd data indices n cd md s))
        \<and> split_value (fst (build_isolation_tree rnd data indices n cd md s))
          \<le> snd (min_max_loop data indices
               (split_attribute (fst (build_isolation_tree rnd data indices n cd md s))) n))
   \<and> right_present_n (Some (fst (build_tree rnd' pdata idx m depth s')))
   \<and> (\<not> is_leaf_n (fst (build_tree rnd' pdata idx m depth s')) \<longrightarrow>
        fst (min_max_scan pdata idx (split_attr (fst (build_tree rnd' pdata idx m depth s'))) m)
          \<le> split_val (fst (build_tree rnd' pdata idx m depth s'))
        \<and> split_val (fst (build_tree rnd' pdata idx m depth s'))
          \<le> snd (min_max_scan pdata idx
                   (split_attr (fst (build_tree rnd' pdata idx m depth s'))) m))"
proof -
  have a: "\<not> is_leaf (fst (build_isolation_tree rnd data indices n cd md s)) \<longrightarrow>
        fst (min_max_loop data indices
               (split_attribute (fst (build_isolation_tree rnd data indices n cd md s))) n)
          \<le> split_value (fst (build_isolation_tree rnd data indices n cd md s))
        \<and> split_value (fst (build_isolation_tree rnd data indices n cd md s))
          \<le> snd (min_max_loop data indices
               (split_attribute (fst (build_isolation_tree rnd data indices n cd md s))) n)"
    by (cases rule: build_isolation_tree_step[of md cd n rnd data indices s]) simp_all
  have b: "\<not> is_leaf_n (fst (build_tree rnd' pdata idx m depth s')) \<longrightarrow>
        fst (min_max_scan pdata idx (split_attr (fst (build_tree rnd' pdata idx m depth s'))) m)
          \<le> split_val (fst (build_tree rnd' pdata idx m depth s'))
        \<and> split_val (fst (build_tree rnd' pdata idx m depth s'))
          \<le> snd (min_max_scan pdata idx
                   (split_attr (fst (build_tree rnd' pdata idx m depth s'))) m)"
    by (cases rule: build_tree_step[of depth m rnd' pdata idx s']) simp_all
  from a b build_isolation_tree_right_present[of rnd data indices n cd md s]
    build_tree_right_present[of rnd' pdata idx m depth s']
  show ?thesis by blast
qed

theorem internal_nodes_have_right_child_witness:
  "\<not> is_leaf (fst (build_isolation_tree zero_stream two_behaviors [0, 1] 2 0 10 0))
   \<and> right_present (Some (fst (build_isolation_tree zero_stream two_behaviors [0, 1] 2 0 10 0)))
   \<and> split_value (fst (build_isolation_tree zero_stream two_behaviors [0, 1] 2 0 10 0))
       \<le> snd (min_max_loop two_behaviors [0, 1]
            (split_attribute (fst (build_isolation_tree zero_stream two_behaviors [0, 1] 2 0 10 0)))
            2)
   \<and> \<not> is_leaf_n (fst (build_tree count_stream two_processes [0, 1] 2 0 0))
   \<and> right_present_n (Some (fst (build_tree count_stream two_processes [0, 1] 2 0 0)))
   \<and> split_val (fst (build_tree count_stream two_processes [0, 1] 2 0 0))
       \<le> snd (min_max_scan two_processes [0, 1]
            (split_attr (fst (build_tree count_stream two_processes [0, 1] 2 0 0))) 2)"
proof -
  have a: "\<not> is_leaf (fst (build_isolation_tree zero_stream two_behaviors [0, 1] 2 0 10 0))"
    by code_simp
  have b: "\<not> is_leaf_n (fst (build_tree count_stream two_processes [0, 1] 2 0 0))"
    by code_simp
  from a b internal_nodes_have_right_child[of zero_stream two_behaviors "[0, 1]" 2 0 10 0
      count_stream two_processes "[0, 1]" 2 0 0]
  show ?thesis by blast
qed

text \<open>
  C10. Both builders terminate on every input: every argument tuple lies in the domain
  on which the recursion is well-founded, with the measure limit minus depth. A call at
  or beyond the depth limit returns a leaf at once and draws no random number, and a
  tree built from depth \<open>d\<close> has at most \<open>limit - d + 1\<close> levels.
\<close>

theorem build_terminates:
  "build_isolation_tree_dom (rnd, data, indices, n, cd, md, s)
   \<and> (md \<le> cd \<longrightarrow>
        build_isolation_tree rnd data indices n cd md s
          = (IsolationNode True (- 1) 0 None None n, s))
   \<and> levels (Some (fst (build_isolation_tree rnd data indices n cd md s)))
        \<le> Suc (nat (md - cd))
   \<and> build_tree_dom (rnd', pdata, idx, m, depth, s')
   \<and> (MAX_DEPTH \<le> depth \<longrightarrow>
        build_tree rnd' pdata idx m depth s' = (Node True 0 0 m None None, s'))
   \<and> levels_n (Some (fst (build_tree rnd' pdata idx m depth s')))
        \<le> Suc (nat (MAX_DEPTH - depth))"
proof -
  have a: "md \<le> cd \<longrightarrow>
        build_isolation_tree rnd data indices n cd md s
          = (IsolationNode True (- 1) 0 None None n, s)"
    by (subst build_isolation_tree.simps) simp
  have b: "MAX_DEPTH \<le> depth \<longrightarrow>
        build_tree rnd' pdata idx m depth s' = (Node True 0 0 m None None, s')"
    by (subst build_tree.simps) simp
  from a b build_isolation_tree_total[of rnd data indices n cd md s]
    build_isolation_tree_levels[of rnd data indices n cd md s]
    build_tree_total[of rnd' pdata idx m depth s']
    build_tree_levels[of rnd' pdata idx m depth s']
  show ?thesis by blast
qed

theorem build_terminates_witness:
  "(10::int) \<le> 10
   \<and> build_isolation_tree zero_stream two_behaviors [0, 1] 2 10 10 0
        = (IsolationNode True (- 1) 0 None None 2, 0)
   \<and> build_isolation_tree_dom (zero_stream, two_behaviors, [0, 1], 2, 10, 10, 0)
   \<and> MAX_DEPTH \<le> 10
   \<and> build_tree zero_stream two_processes [0, 1] 2 10 0 = (Node True 0 0 2 None None, 0)
   \<and> build_tree_dom (zero_stream, two_processes, [0, 1], 2, 10, 0)"
proof -
  have "(10::int) \<le> 10" and "MAX_DEPTH \<le> 10" by (simp_all add: MAX_DEPTH_def)
  with build_terminates[of zero_stream two_behaviors "[0, 1]" 2 10 10 0
      zero_stream two_processes "[0, 1]" 2 10 0]
  show ?thesis by blast
qed


end
